theory Spec2Isabelle
  imports Main
begin

section \<open>Python strings\<close>

text \<open>
  A Python \<open>str\<close> is a sequence of Unicode code points, and \<open>len\<close> counts code
  points. The model is a list of code point numbers; an ASCII literal of the source is
  written \<open>U ''...''\<close>, anything else by its code points.
\<close>

type_synonym ustr = "nat list"

definition U :: "string \<Rightarrow> ustr" where
  "U s = map of_char s"

text \<open>
  \<open>str.isspace\<close>, which is also the class \<open>\s\<close> of \<open>re\<close> on a \<open>str\<close> pattern and the
  set \<open>str.strip()\<close> removes.
\<close>

definition isspace :: "nat \<Rightarrow> bool" where
  "isspace c \<longleftrightarrow>
     (9 \<le> c \<and> c \<le> 13) \<or> (28 \<le> c \<and> c \<le> 32) \<or> c = 133 \<or> c = 160 \<or> c = 5760 \<or>
     (8192 \<le> c \<and> c \<le> 8202) \<or> c = 8232 \<or> c = 8233 \<or> c = 8239 \<or> c = 8287 \<or> c = 12288"

text \<open>
  \<open>str.isdecimal\<close>, the class \<open>\d\<close> of \<open>re\<close> on a \<open>str\<close> pattern: the code points of
  general category Nd (Unicode 14), which come in runs of ten; each entry of the table is
  the code point of a digit zero.
\<close>

definition decimal_zeros :: "nat list" where
  "decimal_zeros =
    [48, 1632, 1776, 1984, 2406, 2534, 2662, 2790, 2918, 3046, 3174, 3302, 3430, 3558,
     3664, 3792, 3872, 4160, 4240, 6112, 6160, 6470, 6608, 6784, 6800, 6992, 7088, 7232,
     7248, 42528, 43216, 43264, 43472, 43504, 43600, 44016, 65296, 66720, 68912, 69734,
     69872, 69942, 70096, 70384, 70736, 70864, 71248, 71360, 71472, 71904, 72016, 72784,
     73040, 73120, 92768, 92864, 93008, 120782, 120792, 120802, 120812, 120822, 123200,
     123632, 125264, 130032]"

definition isdecimal :: "nat \<Rightarrow> bool" where
  "isdecimal c \<longleftrightarrow> list_ex (\<lambda>z. z \<le> c \<and> c < z + 10) decimal_zeros"

definition lstrip :: "ustr \<Rightarrow> ustr" where
  "lstrip s = dropWhile isspace s"

definition rstrip :: "ustr \<Rightarrow> ustr" where
  "rstrip s = rev (dropWhile isspace (rev s))"

definition strip :: "ustr \<Rightarrow> ustr" where
  "strip s = rstrip (lstrip s)"

definition startswith :: "ustr \<Rightarrow> ustr \<Rightarrow> bool" where
  "startswith s p \<longleftrightarrow> take (length p) s = p"

text \<open>\<open>p in s\<close>: \<open>p\<close> occurs in \<open>s\<close> as a contiguous run.\<close>

definition contains :: "ustr \<Rightarrow> ustr \<Rightarrow> bool" where
  "contains s p \<longleftrightarrow> list_ex (\<lambda>k. startswith (drop k s) p) [0..<Suc (length s)]"

text \<open>\<open>s.split(sep)\<close> for a separator of one character: never the empty list.\<close>

fun py_split :: "nat \<Rightarrow> ustr \<Rightarrow> ustr list" where
  "py_split sep [] = [[]]"
| "py_split sep (c # cs) =
     (if c = sep then [] # py_split sep cs
      else (case py_split sep cs of
              [] \<Rightarrow> [[c]]
            | p # ps \<Rightarrow> (c # p) # ps))"

fun py_join :: "ustr \<Rightarrow> ustr list \<Rightarrow> ustr" where
  "py_join sep [] = []"
| "py_join sep [x] = x"
| "py_join sep (x # y # ys) = x @ sep @ py_join sep (y # ys)"

text \<open>\<open>s.replace(a, b)\<close> for \<open>a\<close> of one character.\<close>

definition replace_char :: "nat \<Rightarrow> ustr \<Rightarrow> ustr \<Rightarrow> ustr" where
  "replace_char a b s = concat (map (\<lambda>c. if c = a then b else [c]) s)"

text \<open>\<open>s.count(c)\<close> for \<open>c\<close> of one character.\<close>

definition count_char :: "nat \<Rightarrow> ustr \<Rightarrow> nat" where
  "count_char c s = length (filter (\<lambda>x. x = c) s)"

text \<open>\<open>str(n)\<close> of a non-negative integer, as an f-string prints it.\<close>

fun py_str :: "nat \<Rightarrow> ustr" where
  "py_str n = (if n < 10 then [48 + n] else py_str (n div 10) @ [48 + n mod 10])"

declare py_str.simps [simp del]

text \<open>
  \<open>html.escape(s)\<close> with its default \<open>quote=True\<close>: the ampersand is replaced first, so
  the five replacements amount to one substitution per character.
\<close>

definition escape_char :: "nat \<Rightarrow> ustr" where
  "escape_char c =
     (if c = 38 then U ''&amp;''
      else if c = 60 then U ''&lt;''
      else if c = 62 then U ''&gt;''
      else if c = 34 then U ''&quot;''
      else if c = 39 then U ''&#x27;''
      else [c])"

definition escape :: "ustr \<Rightarrow> ustr" where
  "escape s = concat (map escape_char s)"

text \<open>
  The decoding of the five entities that \<open>escape\<close> writes; every other character is kept.
\<close>

fun unescape :: "ustr \<Rightarrow> ustr" where
  "unescape [] = []"
| "unescape (c # r) =
     (if c = 38 \<and> startswith r (U ''amp;'') then 38 # unescape (drop 4 r)
      else if c = 38 \<and> startswith r (U ''lt;'') then 60 # unescape (drop 3 r)
      else if c = 38 \<and> startswith r (U ''gt;'') then 62 # unescape (drop 3 r)
      else if c = 38 \<and> startswith r (U ''quot;'') then 34 # unescape (drop 5 r)
      else if c = 38 \<and> startswith r (U ''#x27;'') then 39 # unescape (drop 5 r)
      else c # unescape r)"

section \<open>The heading pattern\<close>

text \<open>
  \<^verbatim>\<open>re.match(r'^(\d+(?:\.\d+){0,2})\.\s+(.+)$', s)\<close>

  The matcher is the backtracking one of \<open>re\<close>: each part of the pattern lists the ways it
  can match at the front of the text, as (matched, remaining) pairs in the order the
  engine tries them, and the match is the first way through all the parts.
\<close>

text \<open>A greedy \<open>C+\<close> on a character class: the longest run first, then shorter ones.\<close>

definition greedy_plus :: "(nat \<Rightarrow> bool) \<Rightarrow> ustr \<Rightarrow> (ustr \<times> ustr) list" where
  "greedy_plus P s =
     map (\<lambda>k. (take k s, drop k s)) (rev [1..<Suc (length (takeWhile P s))])"

text \<open>A literal character.\<close>

definition lit :: "nat \<Rightarrow> ustr \<Rightarrow> (ustr \<times> ustr) list" where
  "lit c s = (case s of [] \<Rightarrow> [] | x # r \<Rightarrow> if x = c then [([c], r)] else [])"

text \<open>One part after another.\<close>

definition seq ::
  "(ustr \<Rightarrow> (ustr \<times> ustr) list) \<Rightarrow> (ustr \<Rightarrow> (ustr \<times> ustr) list) \<Rightarrow> ustr \<Rightarrow> (ustr \<times> ustr) list"
where
  "seq p q s = concat (map (\<lambda>(a, r). map (\<lambda>(b, r'). (a @ b, r')) (q r)) (p s))"

text \<open>A greedy \<open>p?\<close>: with \<open>p\<close> first, then without.\<close>

definition opt :: "(ustr \<Rightarrow> (ustr \<times> ustr) list) \<Rightarrow> ustr \<Rightarrow> (ustr \<times> ustr) list" where
  "opt p s = p s @ [([], s)]"

text \<open>\<^verbatim>\<open>\.\d+\<close>\<close>

definition dot_digits :: "ustr \<Rightarrow> (ustr \<times> ustr) list" where
  "dot_digits = seq (lit 46) (greedy_plus isdecimal)"

text \<open>\<^verbatim>\<open>\d+(?:\.\d+){0,2}\<close>: the greedy \<open>{0,2}\<close> tries two repetitions, then one, then none.\<close>

definition number_re :: "ustr \<Rightarrow> (ustr \<times> ustr) list" where
  "number_re = seq (greedy_plus isdecimal) (opt (seq dot_digits (opt dot_digits)))"

text \<open>\<open>.\<close> matches every character but the newline.\<close>

definition anychar :: "nat \<Rightarrow> bool" where
  "anychar c \<longleftrightarrow> c \<noteq> 10"

text \<open>\<open>$\<close> matches at the end of the text and before a newline that ends it.\<close>

definition at_end :: "ustr \<Rightarrow> bool" where
  "at_end r \<longleftrightarrow> r = [] \<or> r = [10]"

text \<open>All the matches of the whole pattern, as (group 1, group 2), in the engine's order.\<close>

definition heading_matches :: "ustr \<Rightarrow> (ustr \<times> ustr) list" where
  "heading_matches s =
     concat (map (\<lambda>(number, r1).
       concat (map (\<lambda>(d, r2).
         concat (map (\<lambda>(ws, r3).
           concat (map (\<lambda>(title, r4). if at_end r4 then [(number, title)] else [])
             (greedy_plus anychar r3)))
           (greedy_plus isspace r2)))
         (lit 46 r1)))
       (number_re s))"

definition heading_match :: "ustr \<Rightarrow> (ustr \<times> ustr) option" where
  "heading_match s = (case heading_matches s of [] \<Rightarrow> None | m # _ \<Rightarrow> Some m)"

section \<open>The outline: \<open>extract_toc\<close>\<close>

text \<open>
  The denylist \<open>skip_keywords\<close>, the same list in \<open>extract_toc\<close> and in
  \<open>format_content_to_html\<close>; the phrases that are not ASCII are given by their code points.
\<close>

definition skip_keywords :: "ustr list" where
  "skip_keywords =
    [[29992, 25143, 35775, 38382],
     [21709, 24212, 26102, 38388],
     U ''JVM '' @ [24050],
     U ''Nginx'',
     U ''PHP '' @ [35299, 37322, 22120],
     [21551, 21160] @ U '' PHP'',
     [25910, 21040, 35831, 27714],
     [30452, 25509, 35843, 29992],
     [21487, 33021, 21019, 24314],
     [37325, 26032, 35299, 37322],
     [32047, 31215, 20351, 29992]]"

text \<open>\<^verbatim>\<open>any(kw in title for kw in skip_keywords)\<close>\<close>

definition has_skip_keyword :: "ustr \<Rightarrow> bool" where
  "has_skip_keyword title \<longleftrightarrow> list_ex (\<lambda>kw. contains title kw) skip_keywords"

text \<open>\<^verbatim>\<open>tuple([f'{i})' for i in range(10)])\<close>: an ASCII digit and a closing parenthesis.\<close>

definition paren_prefixes :: "ustr list" where
  "paren_prefixes = map (\<lambda>i. py_str i @ U '')'') [0..<10]"

definition startswith_any :: "ustr \<Rightarrow> ustr list \<Rightarrow> bool" where
  "startswith_any s ps \<longleftrightarrow> list_ex (\<lambda>p. startswith s p) ps"

text \<open>\<^verbatim>\<open>f"h-{number.replace('.', '-')}"\<close>, written out in both functions of the source.\<close>

definition heading_id :: "ustr \<Rightarrow> ustr" where
  "heading_id number = U ''h-'' @ replace_char 46 (U ''-'') number"

text \<open>\<^verbatim>\<open>len(number.split('.'))\<close>\<close>

definition level_of :: "ustr \<Rightarrow> nat" where
  "level_of number = length (py_split 46 number)"

record toc_item =
  item_id :: ustr
  item_number :: ustr
  item_title :: ustr
  item_level :: nat

text \<open>
  The body of the loop over the lines: the state is the list \<open>toc\<close> and the set
  \<open>toc_ids\<close>.
\<close>

definition is_valid :: "ustr \<Rightarrow> ustr \<Rightarrow> ustr \<Rightarrow> ustr set \<Rightarrow> bool" where
  "is_valid line number title toc_ids \<longleftrightarrow>
     length title \<ge> 4 \<and>
     \<not> has_skip_keyword title \<and>
     \<not> startswith title (U ''http'') \<and>
     \<not> startswith_any (strip line) paren_prefixes \<and>
     number \<notin> toc_ids"

definition toc_step :: "toc_item list \<times> ustr set \<Rightarrow> ustr \<Rightarrow> toc_item list \<times> ustr set" where
  "toc_step st line =
     (case st of (toc, toc_ids) \<Rightarrow>
        (case heading_match (strip line) of
           None \<Rightarrow> (toc, toc_ids)
         | Some (number, g2) \<Rightarrow>
             let title = strip g2 in
             if is_valid line number title toc_ids
             then (toc @ [\<lparr>item_id = heading_id number, item_number = number,
                            item_title = title, item_level = level_of number\<rparr>],
                   insert number toc_ids)
             else (toc, toc_ids)))"

definition extract_toc :: "ustr \<Rightarrow> toc_item list" where
  "extract_toc content = fst (foldl toc_step ([], {}) (py_split 10 content))"

section \<open>The body: \<open>format_content_to_html\<close>\<close>

text \<open>The fragments the loop appends to \<open>html\<close>.\<close>

definition code_fragment :: "ustr \<Rightarrow> ustr" where
  "code_fragment text = U ''<pre><code>'' @ escape text @ U ''</code></pre>''"

definition paragraph_fragment :: "ustr \<Rightarrow> ustr" where
  "paragraph_fragment line = U ''<p>'' @ escape line @ U ''</p>''"

definition gap_fragment :: ustr where
  "gap_fragment = U ''<div class=\"gap\"></div>''"

definition heading_fragment :: "nat \<Rightarrow> ustr \<Rightarrow> ustr \<Rightarrow> ustr" where
  "heading_fragment level number stripped =
     (let h_tag = U ''h'' @ py_str (level + 1) in
      U ''<'' @ h_tag @ U '' id=\"'' @ heading_id number @ U ''\" class=\"heading level-'' @
      py_str level @ U ''\">'' @ escape stripped @ U ''</'' @ h_tag @ U ''>'')"

definition java_keywords :: "ustr list" where
  "java_keywords =
     [U ''class '', U ''public '', U ''private '', U ''protected '', U ''@'',
      U ''import '', U ''package '', U ''interface '']"

text \<open>\<^verbatim>\<open>line.count('{') - line.count('}')\<close>\<close>

definition brace_delta :: "ustr \<Rightarrow> int" where
  "brace_delta line = int (count_char 123 line) - int (count_char 125 line)"

text \<open>\<^verbatim>\<open>line.startswith('    ') or line.startswith('\t')\<close>\<close>

definition indented :: "ustr \<Rightarrow> bool" where
  "indented line \<longleftrightarrow> startswith line (U ''    '') \<or> startswith line [9]"

text \<open>\<^verbatim>\<open>s and s[0] == '{'\<close>\<close>

definition first_is_brace :: "ustr \<Rightarrow> bool" where
  "first_is_brace s \<longleftrightarrow> s \<noteq> [] \<and> hd s = 123"

definition last_is_brace :: "ustr \<Rightarrow> bool" where
  "last_is_brace s \<longleftrightarrow> s \<noteq> [] \<and> last s = 123"

definition starts_code :: "ustr \<Rightarrow> bool" where
  "starts_code stripped \<longleftrightarrow>
     startswith_any stripped java_keywords \<or> first_is_brace stripped \<or> last_is_brace stripped"

text \<open>
  \<^verbatim>\<open>while i < len(lines) and brace_count > 0\<close>: collect lines until the braces balance.
\<close>

function brace_while :: "ustr list \<Rightarrow> nat \<Rightarrow> ustr list \<Rightarrow> int \<Rightarrow> nat \<times> ustr list \<times> int" where
  "brace_while lines i code_block brace_count =
     (if i < length lines \<and> brace_count > 0
      then brace_while lines (i + 1) (code_block @ [lines ! i])
             (brace_count + brace_delta (lines ! i))
      else (i, code_block, brace_count))"
  by pat_completeness auto
termination
  by (relation "measure (\<lambda>(lines, i, code_block, brace_count). length lines - i)") auto

declare brace_while.simps [simp del]

text \<open>
  The brace heuristic from its first line at \<open>i\<close>: the line itself, the next line when it
  opens with a brace and the balance is zero, then the loop.
\<close>

definition brace_collect :: "ustr list \<Rightarrow> nat \<Rightarrow> nat \<times> ustr list \<times> int" where
  "brace_collect lines i =
     (let line = lines ! i;
          code_block = [line];
          brace_count = brace_delta line;
          i1 = i + 1
      in if brace_count = 0 \<and> i1 < length lines \<and> first_is_brace (strip (lines ! i1))
         then brace_while lines (i1 + 1) (code_block @ [lines ! i1]) (brace_delta (lines ! i1))
         else brace_while lines i1 code_block brace_count)"

text \<open>
  The loop of the indented block, with its \<open>break\<close> before a line that is neither
  indented nor blank.
\<close>

function indent_while :: "ustr list \<Rightarrow> nat \<Rightarrow> ustr list \<Rightarrow> nat \<times> ustr list" where
  "indent_while lines i code_block =
     (if i < length lines \<and> (indented (lines ! i) \<or> strip (lines ! i) = [])
      then (if i + 1 < length lines \<and> \<not> indented (lines ! (i + 1)) \<and> strip (lines ! (i + 1)) \<noteq> []
            then (i + 1, code_block @ [lines ! i])
            else indent_while lines (i + 1) (code_block @ [lines ! i]))
      else (i, code_block))"
  by pat_completeness auto
termination
  by (relation "measure (\<lambda>(lines, i, code_block). length lines - i)") auto

declare indent_while.simps [simp del]

record fmt_state =
  cur :: nat
  in_code_block :: bool
  code_lines :: "ustr list"
  html :: "ustr list"

text \<open>
  One turn of \<^verbatim>\<open>while i < len(lines)\<close>, for \<open>cur st < length lines\<close>. The rules are
  tried in the order of the source; \<open>cur\<close> is the cursor \<open>i\<close>.
\<close>

definition fmt_step :: "ustr list \<Rightarrow> fmt_state \<Rightarrow> fmt_state" where
  "fmt_step lines st =
     (let line = lines ! cur st;
          stripped = strip line
      in
      if startswith stripped (U ''```'') then
        (if \<not> in_code_block st
         then st\<lparr>cur := cur st + 1, in_code_block := True, code_lines := []\<rparr>
         else st\<lparr>cur := cur st + 1, in_code_block := False, code_lines := [],
                 html := html st @ [code_fragment (py_join [10] (code_lines st))]\<rparr>)
      else if in_code_block st then
        st\<lparr>cur := cur st + 1, code_lines := code_lines st @ [line]\<rparr>
      else
        (case heading_match stripped of
           Some (number, title) \<Rightarrow>
             (if length title \<ge> 4 \<and> \<not> has_skip_keyword title
              then st\<lparr>cur := cur st + 1,
                      html := html st @ [heading_fragment (level_of number) number stripped]\<rparr>
              else st\<lparr>cur := cur st + 1, html := html st @ [paragraph_fragment line]\<rparr>)
         | None \<Rightarrow>
             if starts_code stripped then
               (case brace_collect lines (cur st) of
                  (i', code_block, brace_count) \<Rightarrow>
                    if length code_block > 1 \<or> brace_count = 0
                    then st\<lparr>cur := i',
                            html := html st @ [code_fragment (py_join [10] code_block)]\<rparr>
                    else st\<lparr>cur := i', html := html st @ [paragraph_fragment line]\<rparr>)
             else if indented line then
               (case indent_while lines (cur st + 1) [line] of
                  (i', code_block) \<Rightarrow>
                    st\<lparr>cur := i',
                       html := html st @ [code_fragment (rstrip (py_join [10] code_block))]\<rparr>)
             else if stripped = [] then
               st\<lparr>cur := cur st + 1, html := html st @ [gap_fragment]\<rparr>
             else
               st\<lparr>cur := cur st + 1, html := html st @ [paragraph_fragment line]\<rparr>))"

text \<open>The inner loops, one equation for each way through.\<close>

lemma brace_while_more:
  "i < length lines \<and> brace_count > 0 \<Longrightarrow>
   brace_while lines i code_block brace_count =
     brace_while lines (i + 1) (code_block @ [lines ! i]) (brace_count + brace_delta (lines ! i))"
  by (rule trans [OF brace_while.simps]) (simp only: if_True if_False simp_thms)

lemma brace_while_stop:
  "\<not> (i < length lines \<and> brace_count > 0) \<Longrightarrow>
   brace_while lines i code_block brace_count = (i, code_block, brace_count)"
  by (rule trans [OF brace_while.simps]) (simp only: if_True if_False simp_thms)

lemma indent_while_stop:
  "\<not> (i < length lines \<and> (indented (lines ! i) \<or> strip (lines ! i) = [])) \<Longrightarrow>
   indent_while lines i code_block = (i, code_block)"
  by (rule trans [OF indent_while.simps]) (simp only: if_True if_False simp_thms)

lemma indent_while_break:
  "i < length lines \<and> (indented (lines ! i) \<or> strip (lines ! i) = []) \<Longrightarrow>
   i + 1 < length lines \<and> \<not> indented (lines ! (i + 1)) \<and> strip (lines ! (i + 1)) \<noteq> [] \<Longrightarrow>
   indent_while lines i code_block = (i + 1, code_block @ [lines ! i])"
  by (rule trans [OF indent_while.simps]) (simp only: if_True if_False simp_thms)

lemma indent_while_more:
  "i < length lines \<and> (indented (lines ! i) \<or> strip (lines ! i) = []) \<Longrightarrow>
   \<not> (i + 1 < length lines \<and> \<not> indented (lines ! (i + 1)) \<and> strip (lines ! (i + 1)) \<noteq> []) \<Longrightarrow>
   indent_while lines i code_block = indent_while lines (i + 1) (code_block @ [lines ! i])"
  by (rule trans [OF indent_while.simps]) (simp only: if_True if_False simp_thms)

lemma brace_while_ge: "i \<le> fst (brace_while lines i cb bc)"
proof (induction lines i cb bc rule: brace_while.induct)
  case (1 lines i cb bc)
  show ?case
  proof (cases "i < length lines \<and> bc > 0")
    case True
    with 1 have "i + 1 \<le> fst (brace_while lines (i + 1) (cb @ [lines ! i]) (bc + brace_delta (lines ! i)))"
      by simp
    then show ?thesis using brace_while_more [OF True, of cb] by simp
  next
    case False
    show ?thesis using brace_while_stop [OF False, of cb] by simp
  qed
qed

lemma indent_while_ge: "i \<le> fst (indent_while lines i cb)"
proof (induction lines i cb rule: indent_while.induct)
  case (1 lines i cb)
  let ?go = "i < length lines \<and> (indented (lines ! i) \<or> strip (lines ! i) = [])"
  let ?brk = "i + 1 < length lines \<and> \<not> indented (lines ! (i + 1)) \<and> strip (lines ! (i + 1)) \<noteq> []"
  show ?case
  proof (cases ?go)
    case False
    show ?thesis using indent_while_stop [OF False, of cb] by simp
  next
    case go: True
    show ?thesis
    proof (cases ?brk)
      case True
      show ?thesis using indent_while_break [OF go True, of cb] by simp
    next
      case False
      with go 1 have "i + 1 \<le> fst (indent_while lines (i + 1) (cb @ [lines ! i]))"
        by blast
      then have "i \<le> fst (indent_while lines (i + 1) (cb @ [lines ! i]))" by simp
      then show ?thesis using indent_while_more [OF go False, of cb] by simp
    qed
  qed
qed

lemma brace_collect_gt: "i < fst (brace_collect lines i)"
proof -
  have a: "i < fst (brace_while lines (i + 1) cb bc)" for cb bc
    using brace_while_ge [of "i + 1" lines cb bc] by simp
  have b: "i < fst (brace_while lines (i + 1 + 1) cb bc)" for cb bc
    using brace_while_ge [of "i + 1 + 1" lines cb bc] by simp
  show ?thesis
    unfolding brace_collect_def Let_def
    by (simp only: a b if_split [of "\<lambda>x. i < fst x"] simp_thms if_True if_False if_cancel)
qed

text \<open>One equation for each rule of the classifier.\<close>

lemma fmt_step_open:
  "startswith (strip (lines ! cur st)) (U ''```'') \<Longrightarrow> \<not> in_code_block st \<Longrightarrow>
   fmt_step lines st = st\<lparr>cur := cur st + 1, in_code_block := True, code_lines := []\<rparr>"
  by (simp add: fmt_step_def Let_def)

lemma fmt_step_close:
  "startswith (strip (lines ! cur st)) (U ''```'') \<Longrightarrow> in_code_block st \<Longrightarrow>
   fmt_step lines st = st\<lparr>cur := cur st + 1, in_code_block := False, code_lines := [],
     html := html st @ [code_fragment (py_join [10] (code_lines st))]\<rparr>"
  by (simp add: fmt_step_def Let_def)

lemma fmt_step_buffer:
  "\<not> startswith (strip (lines ! cur st)) (U ''```'') \<Longrightarrow> in_code_block st \<Longrightarrow>
   fmt_step lines st = st\<lparr>cur := cur st + 1, code_lines := code_lines st @ [lines ! cur st]\<rparr>"
  by (simp add: fmt_step_def Let_def)

lemma fmt_step_heading:
  "\<not> startswith (strip (lines ! cur st)) (U ''```'') \<Longrightarrow> \<not> in_code_block st \<Longrightarrow>
   heading_match (strip (lines ! cur st)) = Some (number, title) \<Longrightarrow>
   fmt_step lines st =
     (if length title \<ge> 4 \<and> \<not> has_skip_keyword title
      then st\<lparr>cur := cur st + 1,
              html := html st @ [heading_fragment (level_of number) number (strip (lines ! cur st))]\<rparr>
      else st\<lparr>cur := cur st + 1, html := html st @ [paragraph_fragment (lines ! cur st)]\<rparr>)"
  by (simp add: fmt_step_def Let_def)

lemma fmt_step_brace:
  "\<not> startswith (strip (lines ! cur st)) (U ''```'') \<Longrightarrow> \<not> in_code_block st \<Longrightarrow>
   heading_match (strip (lines ! cur st)) = None \<Longrightarrow>
   starts_code (strip (lines ! cur st)) \<Longrightarrow>
   brace_collect lines (cur st) = (i', code_block, brace_count) \<Longrightarrow>
   fmt_step lines st =
     (if length code_block > 1 \<or> brace_count = 0
      then st\<lparr>cur := i', html := html st @ [code_fragment (py_join [10] code_block)]\<rparr>
      else st\<lparr>cur := i', html := html st @ [paragraph_fragment (lines ! cur st)]\<rparr>)"
  by (simp add: fmt_step_def Let_def)

lemma fmt_step_indent:
  "\<not> startswith (strip (lines ! cur st)) (U ''```'') \<Longrightarrow> \<not> in_code_block st \<Longrightarrow>
   heading_match (strip (lines ! cur st)) = None \<Longrightarrow>
   \<not> starts_code (strip (lines ! cur st)) \<Longrightarrow>
   indented (lines ! cur st) \<Longrightarrow>
   indent_while lines (cur st + 1) [lines ! cur st] = (i', code_block) \<Longrightarrow>
   fmt_step lines st =
     st\<lparr>cur := i', html := html st @ [code_fragment (rstrip (py_join [10] code_block))]\<rparr>"
  by (simp add: fmt_step_def Let_def)

lemma fmt_step_plain:
  "\<not> startswith (strip (lines ! cur st)) (U ''```'') \<Longrightarrow> \<not> in_code_block st \<Longrightarrow>
   heading_match (strip (lines ! cur st)) = None \<Longrightarrow>
   \<not> starts_code (strip (lines ! cur st)) \<Longrightarrow>
   \<not> indented (lines ! cur st) \<Longrightarrow>
   fmt_step lines st =
     (if strip (lines ! cur st) = []
      then st\<lparr>cur := cur st + 1, html := html st @ [gap_fragment]\<rparr>
      else st\<lparr>cur := cur st + 1, html := html st @ [paragraph_fragment (lines ! cur st)]\<rparr>)"
  by (simp add: fmt_step_def Let_def)

lemma fmt_step_advances: "cur st < cur (fmt_step lines st)"
proof (cases "startswith (strip (lines ! cur st)) (U ''```'')")
  case True
  then show ?thesis
    by (cases "in_code_block st") (simp_all add: fmt_step_open fmt_step_close)
next
  case nofence: False
  show ?thesis
  proof (cases "in_code_block st")
    case True
    with nofence show ?thesis by (simp add: fmt_step_buffer)
  next
    case notin: False
    show ?thesis
    proof (cases "heading_match (strip (lines ! cur st))")
      case (Some m)
      obtain number title where "m = (number, title)" by (cases m)
      with Some nofence notin show ?thesis
        by (simp add: fmt_step_heading)
    next
      case None
      show ?thesis
      proof (cases "starts_code (strip (lines ! cur st))")
        case True
        obtain i' cb bc where bc: "brace_collect lines (cur st) = (i', cb, bc)"
          by (cases "brace_collect lines (cur st)")
        have "cur st < i'"
          using brace_collect_gt [of "cur st" lines] bc by simp
        with nofence notin None True bc show ?thesis
          by (simp add: fmt_step_brace)
      next
        case nocode: False
        show ?thesis
        proof (cases "indented (lines ! cur st)")
          case True
          obtain i' cb where iw: "indent_while lines (cur st + 1) [lines ! cur st] = (i', cb)"
            by (cases "indent_while lines (cur st + 1) [lines ! cur st]")
          have "cur st < i'"
            using indent_while_ge [of "cur st + 1" lines "[lines ! cur st]"] iw by simp
          with nofence notin None nocode True iw show ?thesis
            by (simp add: fmt_step_indent)
        next
          case False
          with nofence notin None nocode show ?thesis
            by (simp add: fmt_step_plain)
        qed
      qed
    qed
  qed
qed

text \<open>Every turn of the loop moves the cursor forward, so the loop ends.\<close>

function fmt_loop :: "ustr list \<Rightarrow> fmt_state \<Rightarrow> ustr list" where
  "fmt_loop lines st =
     (if cur st < length lines then fmt_loop lines (fmt_step lines st) else html st)"
  by pat_completeness auto
termination
proof (relation "measure (\<lambda>(lines, st). length lines - cur st)")
  show "wf (measure (\<lambda>(lines, st). length lines - cur st))" by simp
next
  fix lines :: "ustr list" and st :: fmt_state
  assume "cur st < length lines"
  moreover have "cur st < cur (fmt_step lines st)" by (rule fmt_step_advances)
  ultimately show "((lines, fmt_step lines st), (lines, st)) \<in> measure (\<lambda>(lines, st). length lines - cur st)"
    by simp
qed

declare fmt_loop.simps [simp del]

text \<open>The state before the loop, and the list \<open>html\<close> after it.\<close>

definition init_state :: fmt_state where
  "init_state = \<lparr>cur = 0, in_code_block = False, code_lines = [], html = []\<rparr>"

definition body_fragments :: "ustr \<Rightarrow> ustr list" where
  "body_fragments content = fmt_loop (py_split 10 content) init_state"

text \<open>
  \<^verbatim>\<open>return '\n'.join(html)\<close>. The parameter \<open>file_name\<close> is not used by the source.
\<close>

definition format_content_to_html :: "ustr \<Rightarrow> ustr \<Rightarrow> ustr" where
  "format_content_to_html content file_name = py_join [10] (body_fragments content)"

text \<open>
  The states the loop goes through from a given one: \<open>reaches lines st st'\<close> when the loop
  started in \<open>st\<close> is in \<open>st'\<close> at the head of some turn.
\<close>

inductive reaches :: "ustr list \<Rightarrow> fmt_state \<Rightarrow> fmt_state \<Rightarrow> bool" for lines :: "ustr list" where
  start: "reaches lines st st"
| turn: "reaches lines st st' \<Longrightarrow> cur st' < length lines \<Longrightarrow> reaches lines st (fmt_step lines st')"

text \<open>
  The entry a line adds to the outline when its number is new: the first four conditions
  of \<open>is_valid\<close>, which do not depend on the lines before.
\<close>

definition toc_candidate :: "ustr \<Rightarrow> toc_item option" where
  "toc_candidate line =
     (case heading_match (strip line) of
        None \<Rightarrow> None
      | Some (number, g2) \<Rightarrow>
          let title = strip g2 in
          if length title \<ge> 4 \<and> \<not> has_skip_keyword title \<and> \<not> startswith title (U ''http'') \<and>
             \<not> startswith_any (strip line) paren_prefixes
          then Some \<lparr>item_id = heading_id number, item_number = number,
                      item_title = title, item_level = level_of number\<rparr>
          else None)"

text \<open>A non-empty run of decimal digits.\<close>

definition digits :: "ustr \<Rightarrow> bool" where
  "digits d \<longleftrightarrow> d \<noteq> [] \<and> list_all isdecimal d"

text \<open>
  The shape of a heading line in the words of the spec: one to three integers separated
  by periods, then a period, a single space and a remainder that is not empty.
\<close>

definition spec_heading_shape :: "ustr \<Rightarrow> bool" where
  "spec_heading_shape s \<longleftrightarrow>
     (\<exists>ns rest. 1 \<le> length ns \<and> length ns \<le> 3 \<and> list_all digits ns \<and> rest \<noteq> [] \<and>
        s = py_join [46] ns @ [46, 32] @ rest)"

section \<open>What the pattern matches\<close>

lemma greedy_plus_iff:
  "(a, b) \<in> set (greedy_plus P s) \<longleftrightarrow> a @ b = s \<and> a \<noteq> [] \<and> (\<forall>x\<in>set a. P x)"
proof
  assume "(a, b) \<in> set (greedy_plus P s)"
  then obtain k where k: "1 \<le> k" "k \<le> length (takeWhile P s)" and a: "a = take k s" and b: "b = drop k s"
    by (auto simp: greedy_plus_def)
  have "take k s = take k (takeWhile P s @ dropWhile P s)" by simp
  also have "\<dots> = take k (takeWhile P s)" using k(2) by (simp only: take_append) simp
  finally have tk: "take k s = take k (takeWhile P s)" .
  have "\<forall>x\<in>set a. P x"
    unfolding a tk by (auto dest: in_set_takeD set_takeWhileD)
  moreover have "a \<noteq> []"
    using k length_takeWhile_le [of P s] unfolding a by auto
  ultimately show "a @ b = s \<and> a \<noteq> [] \<and> (\<forall>x\<in>set a. P x)"
    using a b by simp
next
  assume h: "a @ b = s \<and> a \<noteq> [] \<and> (\<forall>x\<in>set a. P x)"
  then have "takeWhile P s = a @ takeWhile P b"
    by (auto simp: takeWhile_append2)
  then have "length a \<le> length (takeWhile P s)" by simp
  moreover have "1 \<le> length a" using h by (cases a) auto
  moreover have "a = take (length a) s" "b = drop (length a) s" using h by auto
  ultimately show "(a, b) \<in> set (greedy_plus P s)"
    unfolding greedy_plus_def by (auto simp: image_iff intro!: bexI [of _ "length a"])
qed

lemma lit_iff: "(a, b) \<in> set (lit c s) \<longleftrightarrow> a = [c] \<and> s = c # b"
  by (auto simp: lit_def split: list.splits)

lemma seq_iff:
  "(x, r') \<in> set (seq p q s) \<longleftrightarrow>
     (\<exists>a r b. x = a @ b \<and> (a, r) \<in> set (p s) \<and> (b, r') \<in> set (q r))"
  by (fastforce simp: seq_def)

lemma opt_iff: "(a, b) \<in> set (opt p s) \<longleftrightarrow> (a, b) \<in> set (p s) \<or> (a = [] \<and> b = s)"
  by (auto simp: opt_def)

lemma dot_digits_iff:
  "(a, b) \<in> set (dot_digits s) \<longleftrightarrow> (\<exists>d. a = 46 # d \<and> digits d \<and> s = a @ b)"
  by (auto simp: dot_digits_def seq_iff lit_iff greedy_plus_iff digits_def list_all_iff)


lemma opt_dot_digits_iff:
  "(g, r) \<in> set (opt dot_digits s) \<longleftrightarrow> s = g @ r \<and> (g = [] \<or> (\<exists>d. digits d \<and> g = 46 # d))"
  unfolding opt_iff dot_digits_iff by auto

lemma two_groups_iff:
  "(g, r) \<in> set (seq dot_digits (opt dot_digits) s) \<longleftrightarrow>
     s = g @ r \<and>
     (\<exists>d2. digits d2 \<and> (g = 46 # d2 \<or> (\<exists>d3. digits d3 \<and> g = 46 # d2 @ 46 # d3)))"
  (is "?L \<longleftrightarrow> ?R")
proof
  assume ?L
  then obtain a r1 b where g: "g = a @ b" and a: "(a, r1) \<in> set (dot_digits s)"
    and b: "(b, r) \<in> set (opt dot_digits r1)"
    unfolding seq_iff by blast
  from a obtain d2 where d2: "a = 46 # d2" "digits d2" "s = a @ r1"
    unfolding dot_digits_iff by blast
  from b have r1: "r1 = b @ r" and bb: "b = [] \<or> (\<exists>d. digits d \<and> b = 46 # d)"
    unfolding opt_dot_digits_iff by blast+
  have "s = g @ r" using g d2(3) r1 by simp
  moreover have "g = 46 # d2 \<or> (\<exists>d3. digits d3 \<and> g = 46 # d2 @ 46 # d3)"
    using bb g d2(1) by auto
  ultimately show ?R using d2(2) by blast
next
  assume R: ?R
  then obtain d2 where s: "s = g @ r" and d2: "digits d2"
    and g: "g = 46 # d2 \<or> (\<exists>d3. digits d3 \<and> g = 46 # d2 @ 46 # d3)"
    by blast
  from g obtain b where gb: "g = (46 # d2) @ b" and b: "b = [] \<or> (\<exists>d. digits d \<and> b = 46 # d)"
    by auto
  have "(46 # d2, b @ r) \<in> set (dot_digits s)"
    unfolding dot_digits_iff using d2 s gb by auto
  moreover have "(b, r) \<in> set (opt dot_digits (b @ r))"
    unfolding opt_dot_digits_iff using b by auto
  ultimately show ?L unfolding seq_iff using gb by blast
qed

lemma number_re_iff:
  "(a, b) \<in> set (number_re s) \<longleftrightarrow>
     s = a @ b \<and>
     (\<exists>d1. digits d1 \<and>
        (a = d1 \<or> (\<exists>d2. digits d2 \<and>
           (a = d1 @ 46 # d2 \<or> (\<exists>d3. digits d3 \<and> a = d1 @ 46 # d2 @ 46 # d3)))))"
  (is "?L \<longleftrightarrow> ?R")
proof
  assume ?L
  then obtain d1 r1 g where a: "a = d1 @ g" and d1: "(d1, r1) \<in> set (greedy_plus isdecimal s)"
    and g: "(g, b) \<in> set (opt (seq dot_digits (opt dot_digits)) r1)"
    unfolding number_re_def seq_iff by blast
  from d1 have s: "s = d1 @ r1" and dd: "digits d1"
    unfolding greedy_plus_iff digits_def list_all_iff by auto
  from g have "(g = [] \<and> b = r1) \<or>
      (r1 = g @ b \<and> (\<exists>d2. digits d2 \<and> (g = 46 # d2 \<or> (\<exists>d3. digits d3 \<and> g = 46 # d2 @ 46 # d3))))"
    unfolding opt_iff two_groups_iff by blast
  then show ?R
  proof
    assume "g = [] \<and> b = r1"
    then show ?R using a s dd by auto
  next
    assume h: "r1 = g @ b \<and> (\<exists>d2. digits d2 \<and> (g = 46 # d2 \<or> (\<exists>d3. digits d3 \<and> g = 46 # d2 @ 46 # d3)))"
    then have "s = a @ b" using a s by simp
    moreover from h obtain d2 where "digits d2" "g = 46 # d2 \<or> (\<exists>d3. digits d3 \<and> g = 46 # d2 @ 46 # d3)"
      by blast
    then have "\<exists>d2. digits d2 \<and> (a = d1 @ 46 # d2 \<or> (\<exists>d3. digits d3 \<and> a = d1 @ 46 # d2 @ 46 # d3))"
      using a by auto
    ultimately show ?R using dd by blast
  qed
next
  assume R: ?R
  then obtain d1 where s: "s = a @ b" and dd: "digits d1"
    and c: "a = d1 \<or> (\<exists>d2. digits d2 \<and>
           (a = d1 @ 46 # d2 \<or> (\<exists>d3. digits d3 \<and> a = d1 @ 46 # d2 @ 46 # d3)))"
    by blast
  from c obtain g where ag: "a = d1 @ g"
    and g: "g = [] \<or> (\<exists>d2. digits d2 \<and> (g = 46 # d2 \<or> (\<exists>d3. digits d3 \<and> g = 46 # d2 @ 46 # d3)))"
    by auto
  have "(d1, g @ b) \<in> set (greedy_plus isdecimal s)"
    unfolding greedy_plus_iff using dd s ag by (auto simp: digits_def list_all_iff)
  moreover have "(g, b) \<in> set (opt (seq dot_digits (opt dot_digits)) (g @ b))"
    unfolding opt_iff two_groups_iff using g by auto
  ultimately show ?L unfolding number_re_def seq_iff using ag by blast
qed

lemma in_concat_map: "x \<in> set xs \<Longrightarrow> y \<in> set (f x) \<Longrightarrow> y \<in> set (concat (map f xs))"
  by auto

lemma heading_matches_iff:
  "(n, t) \<in> set (heading_matches s) \<longleftrightarrow>
     (\<exists>r1 ws r3 r4. (n, 46 # r1) \<in> set (number_re s) \<and> (ws, r3) \<in> set (greedy_plus isspace r1) \<and>
        (t, r4) \<in> set (greedy_plus anychar r3) \<and> at_end r4)"
  (is "?L \<longleftrightarrow> ?R")
proof
  assume ?L
  then show ?R
    unfolding heading_matches_def
    by (auto simp: lit_iff split: if_splits) blast
next
  assume ?R
  then obtain r1 ws r3 r4 where h: "(n, 46 # r1) \<in> set (number_re s)"
    "(ws, r3) \<in> set (greedy_plus isspace r1)" "(t, r4) \<in> set (greedy_plus anychar r3)" "at_end r4"
    by blast
  have l: "([46], r1) \<in> set (lit 46 (46 # r1))" by (simp add: lit_iff)
  show ?L
    unfolding heading_matches_def
    apply (rule in_concat_map [OF h(1)], simp only: prod.case)
    apply (rule in_concat_map [OF l], simp only: prod.case)
    apply (rule in_concat_map [OF h(2)], simp only: prod.case)
    apply (rule in_concat_map [OF h(3)], simp only: prod.case)
    using h(4) apply simp
    done
qed

text \<open>
  On a trimmed line the first match takes all the white space after the period, so the
  second group has no white space at either end: \<open>title.strip()\<close> of \<open>extract_toc\<close>
  and \<open>title\<close> of the body are the same text.
\<close>

lemma rstrip_last: "rstrip u \<noteq> [] \<Longrightarrow> \<not> isspace (last (rstrip u))"
proof -
  assume a: "rstrip u \<noteq> []"
  then have ne: "dropWhile isspace (rev u) \<noteq> []" by (simp add: rstrip_def)
  have "last (rstrip u) = hd (dropWhile isspace (rev u))"
    using ne by (simp add: rstrip_def last_rev)
  with ne show ?thesis by (simp add: hd_dropWhile)
qed

lemma rstrip_prefix: "\<exists>w. u = rstrip u @ w \<and> list_all isspace w"
proof -
  have "rev u = takeWhile isspace (rev u) @ dropWhile isspace (rev u)" by simp
  then have "u = rev (dropWhile isspace (rev u)) @ rev (takeWhile isspace (rev u))"
    by (metis rev_append rev_rev_ident)
  moreover have "list_all isspace (rev (takeWhile isspace (rev u)))"
    by (auto simp: list_all_iff dest: set_takeWhileD)
  ultimately show ?thesis unfolding rstrip_def by blast
qed

lemma rstrip_hd: "rstrip u \<noteq> [] \<Longrightarrow> hd (rstrip u) = hd u"
proof -
  assume a: "rstrip u \<noteq> []"
  obtain w where "u = rstrip u @ w" using rstrip_prefix by blast
  then have "hd u = hd (rstrip u @ w)" by simp
  with a show ?thesis by simp
qed

lemma strip_ends:
  assumes "strip l \<noteq> []"
  shows "\<not> isspace (hd (strip l))" and "\<not> isspace (last (strip l))"
proof -
  let ?u = "lstrip l"
  have s: "strip l = rstrip ?u" by (simp add: strip_def)
  have une: "?u \<noteq> []" using assms s by (auto simp: rstrip_def)
  have "\<not> isspace (hd ?u)" using une by (simp add: lstrip_def hd_dropWhile)
  then show "\<not> isspace (hd (strip l))" using rstrip_hd [of ?u] assms s by simp
  show "\<not> isspace (last (strip l))" using rstrip_last [of ?u] assms s by simp
qed

lemma strip_id:
  assumes "t \<noteq> []" "\<not> isspace (hd t)" "\<not> isspace (last t)"
  shows "strip t = t"
proof -
  have l: "lstrip t = t" using assms(1,2) by (cases t) (auto simp: lstrip_def)
  have "dropWhile isspace (rev t) = rev t"
    using assms(1,3) by (cases "rev t") (auto simp: last_rev [symmetric] simp del: last_rev)
  then have "rstrip t = t" by (simp add: rstrip_def)
  with l show ?thesis by (simp add: strip_def)
qed

lemma hd_concat_map:
  "concat (map f xs) = y # ys \<Longrightarrow> \<exists>x\<in>set xs. \<exists>zs. f x = y # zs"
proof (induction xs)
  case Nil
  then show ?case by simp
next
  case (Cons x xs)
  show ?case
  proof (cases "f x")
    case Nil
    with Cons show ?thesis by auto
  next
    case (Cons z zs)
    with Cons.prems show ?thesis by auto
  qed
qed

lemma hd_concat_map_pair:
  "concat (map (\<lambda>(a, b). f a b) xs) = y # ys \<Longrightarrow> \<exists>a b zs. (a, b) \<in> set xs \<and> f a b = y # zs"
  by (drule hd_concat_map) auto

lemma heading_match_Some_iff:
  "heading_match s = Some m \<longleftrightarrow> (\<exists>ms. heading_matches s = m # ms)"
  by (auto simp: heading_match_def split: list.splits)

lemma heading_match_None_iff: "heading_match s = None \<longleftrightarrow> heading_matches s = []"
  by (auto simp: heading_match_def split: list.splits)

lemma heading_match_mem: "heading_match s = Some (n, t) \<Longrightarrow> (n, t) \<in> set (heading_matches s)"
  by (auto simp: heading_match_Some_iff)


lemma isspace_10: "isspace 10"
  by (simp add: isspace_def)

lemma at_end_stripped:
  assumes "at_end r4" "u @ r4 \<noteq> [] \<longrightarrow> \<not> isspace (last (u @ r4))" "u \<noteq> []"
  shows "r4 = []"
proof (rule ccontr)
  assume "r4 \<noteq> []"
  with assms(1) have r: "r4 = [10]" by (simp add: at_end_def)
  then have "last (u @ r4) = 10" by simp
  with assms(2) r isspace_10 show False by simp
qed

lemma title_alts_iff:
  "(n', t) \<in> set (concat (map (\<lambda>(title, r4). if at_end r4 then [(n, title)] else [])
      (greedy_plus anychar r3))) \<longleftrightarrow>
   n' = n \<and> (\<exists>r4. (t, r4) \<in> set (greedy_plus anychar r3) \<and> at_end r4)"
  by (auto split: if_splits)

lemma greedy_plus_Cons:
  assumes "takeWhile P s \<noteq> []"
  shows "greedy_plus P s =
    (takeWhile P s, dropWhile P s) #
      map (\<lambda>k. (take k s, drop k s)) (rev [1..<length (takeWhile P s)])"
proof -
  let ?m = "length (takeWhile P s)"
  have m: "1 \<le> ?m" using assms by (cases "takeWhile P s") auto
  then have "[1..<Suc ?m] = [1..<?m] @ [?m]" by simp
  then have "rev [1..<Suc ?m] = ?m # rev [1..<?m]" by simp
  moreover have "take ?m s = takeWhile P s" by (simp add: takeWhile_eq_take [symmetric])
  moreover have "drop ?m s = dropWhile P s" by (simp add: dropWhile_eq_drop [symmetric])
  ultimately show ?thesis by (simp add: greedy_plus_def)
qed

lemma greedy_plus_Nil: "takeWhile P s = [] \<Longrightarrow> greedy_plus P s = []"
  by (simp add: greedy_plus_def)

lemma first_title_no_space:
  assumes hd: "concat (map (\<lambda>(ws, r3).
            concat (map (\<lambda>(title, r4). if at_end r4 then [(n, title)] else [])
              (greedy_plus anychar r3)))
          (greedy_plus isspace r2)) = (n', t) # zs"
    and last: "r2 \<noteq> [] \<longrightarrow> \<not> isspace (last r2)"
  shows "t \<noteq> [] \<and> \<not> isspace (hd t)"
proof -
  define K where "K = (\<lambda>r3. concat (map (\<lambda>(title, r4). if at_end r4 then [(n, title)] else [])
              (greedy_plus anychar r3)))"
  have hdK: "concat (map (\<lambda>(ws, r3). K r3) (greedy_plus isspace r2)) = (n', t) # zs"
    using hd unfolding K_def .
  have Kmem: "(m, t') \<in> set (K r3) \<longleftrightarrow>
      m = n \<and> (\<exists>r4. (t', r4) \<in> set (greedy_plus anychar r3) \<and> at_end r4)" for m t' r3
    unfolding K_def by (rule title_alts_iff)
  have tw: "takeWhile isspace r2 \<noteq> []"
  proof
    assume "takeWhile isspace r2 = []"
    then have "greedy_plus isspace r2 = []" by (rule greedy_plus_Nil)
    with hdK show False by simp
  qed
  then have r2ne: "r2 \<noteq> []" by auto
  with last have lastns: "\<not> isspace (last r2)" by simp
  let ?r3 = "dropWhile isspace r2"
  have r3ne: "?r3 \<noteq> []"
  proof
    assume "?r3 = []"
    then have "\<forall>x\<in>set r2. isspace x" by (simp add: dropWhile_eq_Nil_conv)
    moreover have "last r2 \<in> set r2" using r2ne by simp
    ultimately show False using lastns by blast
  qed
  then have hdr3: "\<not> isspace (hd ?r3)" by (simp add: hd_dropWhile)
  have split: "concat (map (\<lambda>(ws, r3). K r3) (greedy_plus isspace r2)) =
      K ?r3 @ concat (map (\<lambda>(ws, r3). K r3)
        (map (\<lambda>k. (take k r2, drop k r2)) (rev [1..<length (takeWhile isspace r2)])))"
    by (simp add: greedy_plus_Cons [OF tw])
  have Kne: "K ?r3 \<noteq> []"
  proof
    assume e: "K ?r3 = []"
    from hd_concat_map_pair [OF hdK] obtain ws r3' zs' where
      m: "(ws, r3') \<in> set (greedy_plus isspace r2)" and k: "K r3' = (n', t) # zs'"
      by blast
    from m have r2: "ws @ r3' = r2" and wsp: "\<forall>x\<in>set ws. isspace x"
      by (simp_all add: greedy_plus_iff)
    from k have "(n', t) \<in> set (K r3')" by simp
    then obtain r4 where t: "(t, r4) \<in> set (greedy_plus anychar r3')" and e4: "at_end r4"
      unfolding Kmem by blast
    from t have r3': "t @ r4 = r3'" and tne: "t \<noteq> []" and any: "\<forall>x\<in>set t. anychar x"
      by (simp_all add: greedy_plus_iff)
    have "(ws @ t) @ r4 = r2" using r2 r3' by simp
    then have "r4 = []"
      using at_end_stripped [OF e4, of "ws @ t"] lastns tne by simp
    with r3' have "r3' = t" by simp
    moreover have "dropWhile isspace (ws @ r3') = dropWhile isspace r3'"
      using wsp by (simp add: dropWhile_append2)
    then have "?r3 = dropWhile isspace r3'"
      using r2 by simp
    ultimately have "set ?r3 \<subseteq> set t" by (auto dest: set_dropWhileD)
    with any have "\<forall>x\<in>set ?r3. anychar x" by blast
    with r3ne have "(?r3, []) \<in> set (greedy_plus anychar ?r3)"
      by (simp add: greedy_plus_iff)
    moreover have "at_end []" by (simp add: at_end_def)
    ultimately have "(n, ?r3) \<in> set (K ?r3)" unfolding Kmem by blast
    with e show False by simp
  qed
  then obtain y ys where K3: "K ?r3 = y # ys" by (cases "K ?r3") auto
  with hdK split have "y = (n', t)" by simp
  with K3 have "(n', t) \<in> set (K ?r3)" by simp
  then obtain r4 where "(t, r4) \<in> set (greedy_plus anychar ?r3)"
    unfolding Kmem by blast
  then have "t @ r4 = ?r3" "t \<noteq> []" by (simp_all add: greedy_plus_iff)
  then have "hd t = hd ?r3" "t \<noteq> []" using hd_append2 [of t r4] by simp_all
  with hdr3 show ?thesis by simp
qed

lemma heading_match_title_stripped:
  assumes "heading_match (strip l) = Some (n, t)"
  shows "strip t = t"
proof -
  let ?s = "strip l"
  from assms obtain ms where hm: "heading_matches ?s = (n, t) # ms"
    by (auto simp: heading_match_Some_iff)
  then have mem: "(n, t) \<in> set (heading_matches ?s)" by simp
  then obtain r1 ws r3 r4 where nr: "(n, 46 # r1) \<in> set (number_re ?s)"
    and w: "(ws, r3) \<in> set (greedy_plus isspace r1)"
    and tt: "(t, r4) \<in> set (greedy_plus anychar r3)" and e4: "at_end r4"
    unfolding heading_matches_iff by blast
  from nr have s1: "?s = n @ 46 # r1" by (simp add: number_re_iff)
  then have sne: "?s \<noteq> []" by simp
  then have lasts: "\<not> isspace (last ?s)" by (rule strip_ends)
  from w tt have "r1 = ws @ t @ r4" and tne: "t \<noteq> []" by (auto simp: greedy_plus_iff)
  with s1 have s2: "?s = (n @ 46 # ws @ t) @ r4" by simp
  have c: "\<not> isspace (last ((n @ 46 # ws @ t) @ r4))"
    using lasts unfolding s2 .
  have "r4 = []"
  proof (rule at_end_stripped [OF e4])
    show "(n @ 46 # ws @ t) @ r4 \<noteq> [] \<longrightarrow> \<not> isspace (last ((n @ 46 # ws @ t) @ r4))"
      using c by blast
    show "n @ 46 # ws @ t \<noteq> []" by simp
  qed
  with s2 tne have "last ?s = last t" by simp
  with lasts have lt: "\<not> isspace (last t)" by simp
  from hd_concat_map_pair [OF hm [unfolded heading_matches_def]]
  obtain n1 q1 zs1 where a1: "(n1, q1) \<in> set (number_re ?s)"
    and b1: "concat (map (\<lambda>(d, r2).
         concat (map (\<lambda>(ws, r3).
           concat (map (\<lambda>(title, r4). if at_end r4 then [(n1, title)] else [])
             (greedy_plus anychar r3)))
           (greedy_plus isspace r2)))
         (lit 46 q1)) = (n, t) # zs1"
    by blast
  from hd_concat_map_pair [OF b1] obtain d r2 zs2 where a2: "(d, r2) \<in> set (lit 46 q1)"
    and b2: "concat (map (\<lambda>(ws, r3).
           concat (map (\<lambda>(title, r4). if at_end r4 then [(n1, title)] else [])
             (greedy_plus anychar r3)))
           (greedy_plus isspace r2)) = (n, t) # zs2"
    by blast
  from a1 a2 have "?s = n1 @ 46 # r2" by (simp add: number_re_iff lit_iff)
  then have "r2 \<noteq> [] \<longrightarrow> last r2 = last ?s" by simp
  with lasts have "r2 \<noteq> [] \<longrightarrow> \<not> isspace (last r2)" by simp
  from first_title_no_space [OF b2 this] have "t \<noteq> [] \<and> \<not> isspace (hd t)" .
  with lt show ?thesis by (simp add: strip_id)
qed

text \<open>A line that matches the pattern starts with a digit, so it is no fence line.\<close>

lemma heading_match_first_digit:
  assumes "heading_match s = Some (n, t)"
  shows "s \<noteq> [] \<and> isdecimal (hd s)"
proof -
  from assms have "(n, t) \<in> set (heading_matches s)" by (rule heading_match_mem)
  then obtain r1 where "(n, 46 # r1) \<in> set (number_re s)"
    unfolding heading_matches_iff by blast
  then obtain d1 g where s: "s = (d1 @ g) @ 46 # r1" and d: "digits d1"
    unfolding number_re_iff by auto
  from d have "d1 \<noteq> []" "isdecimal (hd d1)"
    by (cases d1; simp add: digits_def)+
  with s show ?thesis by simp
qed

lemma backtick_not_decimal: "\<not> isdecimal 96"
  by (simp add: isdecimal_def decimal_zeros_def)

lemma heading_match_not_fence:
  assumes "heading_match s = Some m"
  shows "\<not> startswith s (U ''```'')"
proof
  assume f: "startswith s (U ''```'')"
  obtain n t where "m = (n, t)" by (cases m)
  with assms have d: "s \<noteq> [] \<and> isdecimal (hd s)"
    using heading_match_first_digit by blast
  from f have "take (Suc (Suc (Suc 0))) s = [96, 96, 96]" by (simp add: startswith_def U_def)
  then have "hd s = 96" by (cases s) auto
  with d backtick_not_decimal show False by simp
qed

section \<open>The two loops\<close>

lemma toc_step_candidate:
  "toc_step (toc, toc_ids) line =
     (case toc_candidate line of
        None \<Rightarrow> (toc, toc_ids)
      | Some e \<Rightarrow>
          if item_number e \<in> toc_ids then (toc, toc_ids)
          else (toc @ [e], insert (item_number e) toc_ids))"
  by (auto simp: toc_step_def toc_candidate_def is_valid_def Let_def split: option.splits)

lemma fmt_loop_turn:
  "cur st < length lines \<Longrightarrow> fmt_loop lines st = fmt_loop lines (fmt_step lines st)"
  by (rule trans [OF fmt_loop.simps]) (simp only: if_True)

lemma fmt_loop_end: "\<not> cur st < length lines \<Longrightarrow> fmt_loop lines st = html st"
  by (rule trans [OF fmt_loop.simps]) (simp only: if_False)

lemma reaches_fmt_loop: "reaches lines st st' \<Longrightarrow> fmt_loop lines st = fmt_loop lines st'"
  by (induction rule: reaches.induct) (simp_all add: fmt_loop_turn)

lemma reaches_trans:
  "reaches lines st' st'' \<Longrightarrow> reaches lines st st' \<Longrightarrow> reaches lines st st''"
  by (induction rule: reaches.induct) (auto intro: reaches.turn)

lemma reaches_one:
  "cur st < length lines \<Longrightarrow> reaches lines st (fmt_step lines st)"
  by (rule reaches.turn [OF reaches.start])


text \<open>What one turn does to \<open>html\<close>: it appends at most one fragment.\<close>

lemma fmt_step_html: "\<exists>fr. html (fmt_step lines st) = html st @ fr \<and> length fr \<le> 1"
proof (cases "startswith (strip (lines ! cur st)) (U ''```'')")
  case True
  then show ?thesis
    by (cases "in_code_block st") (simp_all add: fmt_step_open fmt_step_close)
next
  case nofence: False
  show ?thesis
  proof (cases "in_code_block st")
    case True
    with nofence show ?thesis by (simp add: fmt_step_buffer)
  next
    case notin: False
    show ?thesis
    proof (cases "heading_match (strip (lines ! cur st))")
      case (Some m)
      obtain number title where "m = (number, title)" by (cases m)
      with Some nofence notin show ?thesis
        by (simp add: fmt_step_heading)
    next
      case None
      show ?thesis
      proof (cases "starts_code (strip (lines ! cur st))")
        case True
        obtain i' cb bc where bc: "brace_collect lines (cur st) = (i', cb, bc)"
          by (cases "brace_collect lines (cur st)")
        with nofence notin None True show ?thesis
          by (simp add: fmt_step_brace)
      next
        case nocode: False
        show ?thesis
        proof (cases "indented (lines ! cur st)")
          case True
          obtain i' cb where iw: "indent_while lines (cur st + 1) [lines ! cur st] = (i', cb)"
            by (cases "indent_while lines (cur st + 1) [lines ! cur st]")
          with nofence notin None nocode True show ?thesis
            by (simp add: fmt_step_indent)
        next
          case False
          with nofence notin None nocode show ?thesis
            by (simp add: fmt_step_plain)
        qed
      qed
    qed
  qed
qed

lemma fmt_loop_prefix: "\<exists>rest. fmt_loop lines st = html st @ rest"
proof (induction lines st rule: fmt_loop.induct)
  case (1 lines st)
  show ?case
  proof (cases "cur st < length lines")
    case True
    with 1 obtain rest where r: "fmt_loop lines (fmt_step lines st) = html (fmt_step lines st) @ rest"
      by blast
    obtain fr where "html (fmt_step lines st) = html st @ fr"
      using fmt_step_html by blast
    with r True show ?thesis by (simp add: fmt_loop_turn)
  next
    case False
    then show ?thesis by (simp add: fmt_loop_end)
  qed
qed

lemma body_heading:
  assumes r: "reaches lines st0 st" and c: "cur st < length lines" and nf: "\<not> in_code_block st"
    and m: "heading_match (strip (lines ! cur st)) = Some (number, title)"
    and ok: "length title \<ge> 4" "\<not> has_skip_keyword title"
  shows "\<exists>rest. fmt_loop lines st0 =
    html st @ heading_fragment (level_of number) number (strip (lines ! cur st)) # rest"
proof -
  have nofence: "\<not> startswith (strip (lines ! cur st)) (U ''```'')"
    using m by (rule heading_match_not_fence)
  have step: "html (fmt_step lines st) =
      html st @ [heading_fragment (level_of number) number (strip (lines ! cur st))]"
    using ok by (simp add: fmt_step_heading [OF nofence nf m])
  have "fmt_loop lines st0 = fmt_loop lines (fmt_step lines st)"
    using reaches_fmt_loop [OF r] c by (simp add: fmt_loop_turn)
  moreover obtain rest where "fmt_loop lines (fmt_step lines st) = html (fmt_step lines st) @ rest"
    using fmt_loop_prefix by blast
  ultimately show ?thesis using step by simp
qed

section \<open>Evaluating the model\<close>

lemmas str_eval = U_def strip_def lstrip_def rstrip_def isspace_def startswith_def
  contains_def count_char_def replace_char_def escape_def escape_char_def
  isdecimal_def decimal_zeros_def

lemmas re_eval = heading_match_def heading_matches_def number_re_def seq_def opt_def
  dot_digits_def lit_def greedy_plus_def anychar_def at_end_def

lemma py_str_digit: "n < 10 \<Longrightarrow> py_str n = [48 + n]"
  by (simp add: py_str.simps)

lemma paren_prefixes_eval:
  "paren_prefixes =
     [[48, 41], [49, 41], [50, 41], [51, 41], [52, 41], [53, 41], [54, 41], [55, 41],
      [56, 41], [57, 41]]"
  by (simp add: paren_prefixes_def upt_rec py_str_digit U_def)

lemmas toc_eval = extract_toc_def toc_step_def is_valid_def has_skip_keyword_def
  skip_keywords_def startswith_any_def heading_id_def level_of_def paren_prefixes_eval

lemmas fmt_eval = format_content_to_html_def body_fragments_def init_state_def fmt_loop.simps fmt_step_def
  code_fragment_def paragraph_fragment_def gap_fragment_def heading_fragment_def
  java_keywords_def brace_delta_def indented_def first_is_brace_def last_is_brace_def
  starts_code_def brace_collect_def brace_while.simps indent_while.simps
  has_skip_keyword_def skip_keywords_def startswith_any_def heading_id_def level_of_def
  py_str_digit

section \<open>The boundary of the title length\<close>

lemma toc_ABCD:
  "extract_toc (U ''1. ABCD'') =
     [\<lparr>item_id = U ''h-1'', item_number = U ''1'', item_title = U ''ABCD'', item_level = 1\<rparr>]"
  by (simp add: str_eval re_eval toc_eval Let_def)

lemma body_ABCD:
  "format_content_to_html (U ''1. ABCD'') file_name =
     U ''<h2 id=\"h-1\" class=\"heading level-1\">1. ABCD</h2>''"
  by (simp add: str_eval re_eval fmt_eval Let_def)

lemma toc_ABC: "extract_toc (U ''1. ABC'') = []"
  by (simp add: str_eval re_eval toc_eval Let_def)

lemma body_ABC: "format_content_to_html (U ''1. ABC'') file_name = U ''<p>1. ABC</p>''"
  by (simp add: str_eval re_eval fmt_eval Let_def)

text \<open>
  Four characters of three bytes each in UTF-8, and three of them: nine bytes, but a
  title of length 3.
\<close>

lemma toc_wide4:
  "extract_toc (U ''1. '' @ [20013, 25991, 26631, 39064]) =
     [\<lparr>item_id = U ''h-1'', item_number = U ''1'',
       item_title = [20013, 25991, 26631, 39064], item_level = 1\<rparr>]"
  by (simp add: str_eval re_eval toc_eval Let_def)

lemma body_wide4:
  "format_content_to_html (U ''1. '' @ [20013, 25991, 26631, 39064]) file_name =
     U ''<h2 id=\"h-1\" class=\"heading level-1\">1. '' @ [20013, 25991, 26631, 39064] @ U ''</h2>''"
  by (simp add: str_eval re_eval fmt_eval Let_def)

lemma toc_wide3: "extract_toc (U ''1. '' @ [20013, 25991, 26631]) = []"
  by (simp add: str_eval re_eval toc_eval Let_def)

lemma body_wide3:
  "format_content_to_html (U ''1. '' @ [20013, 25991, 26631]) file_name =
     U ''<p>1. '' @ [20013, 25991, 26631] @ U ''</p>''"
  by (simp add: str_eval re_eval fmt_eval Let_def)

text \<open>
  Claim C7. The line \<open>1. ABCD\<close> is a heading of level 1 with number \<open>1\<close> and id \<open>h-1\<close>,
  in the outline and in the body; the line \<open>1. ABC\<close>, whose title has length 3, is in no
  outline and is a paragraph in the body. The length of a title is its number of
  characters: a title of four characters beyond ASCII is accepted as \<open>ABCD\<close> is, and one
  of three such characters is rejected as \<open>ABC\<close> is, whatever their size in bytes.
\<close>

theorem heading_length_boundary:
  "extract_toc (U ''1. ABCD'') =
     [\<lparr>item_id = U ''h-1'', item_number = U ''1'', item_title = U ''ABCD'', item_level = 1\<rparr>] \<and>
   format_content_to_html (U ''1. ABCD'') file_name =
     U ''<h2 id=\"h-1\" class=\"heading level-1\">1. ABCD</h2>'' \<and>
   extract_toc (U ''1. ABC'') = [] \<and>
   format_content_to_html (U ''1. ABC'') file_name = U ''<p>1. ABC</p>'' \<and>
   extract_toc (U ''1. '' @ [20013, 25991, 26631, 39064]) =
     [\<lparr>item_id = U ''h-1'', item_number = U ''1'',
       item_title = [20013, 25991, 26631, 39064], item_level = 1\<rparr>] \<and>
   format_content_to_html (U ''1. '' @ [20013, 25991, 26631, 39064]) file_name =
     U ''<h2 id=\"h-1\" class=\"heading level-1\">1. '' @ [20013, 25991, 26631, 39064] @ U ''</h2>'' \<and>
   extract_toc (U ''1. '' @ [20013, 25991, 26631]) = [] \<and>
   format_content_to_html (U ''1. '' @ [20013, 25991, 26631]) file_name =
     U ''<p>1. '' @ [20013, 25991, 26631] @ U ''</p>''"
  by (intro conjI toc_ABCD body_ABCD toc_ABC body_ABC toc_wide4 body_wide4 toc_wide3 body_wide3)

section \<open>The outline and the headings of the body\<close>

lemma toc_step_adds:
  assumes "toc_step (toc, toc_ids) line = (toc', toc_ids')" "toc' \<noteq> toc"
  shows "\<exists>e. toc_candidate line = Some e \<and> item_number e \<notin> toc_ids \<and> toc' = toc @ [e] \<and>
    toc_ids' = insert (item_number e) toc_ids"
  using assms unfolding toc_step_candidate by (auto split: option.splits if_splits)

lemma toc_candidate_Some:
  assumes "toc_candidate line = Some e"
  shows "\<exists>number title. heading_match (strip line) = Some (number, title) \<and>
    e = \<lparr>item_id = heading_id number, item_number = number, item_title = title,
         item_level = level_of number\<rparr> \<and>
    length title \<ge> 4 \<and> \<not> has_skip_keyword title \<and> \<not> startswith title (U ''http'')"
proof -
  from assms obtain number g2 where m: "heading_match (strip line) = Some (number, g2)"
    by (auto simp: toc_candidate_def split: option.splits)
  then have s: "strip g2 = g2" by (rule heading_match_title_stripped)
  from assms m s show ?thesis
    by (auto simp: toc_candidate_def Let_def split: if_splits)
qed

lemma toc_fold_origin:
  "e \<in> set (fst (foldl toc_step ([], {}) ls)) \<Longrightarrow>
   \<exists>k<length ls. \<exists>toc toc_ids toc_ids'.
     foldl toc_step ([], {}) (take k ls) = (toc, toc_ids) \<and>
     toc_step (toc, toc_ids) (ls ! k) = (toc @ [e], toc_ids')"
proof (induction ls rule: rev_induct)
  case Nil
  then show ?case by simp
next
  case (snoc x xs)
  obtain toc toc_ids where st: "foldl toc_step ([], {}) xs = (toc, toc_ids)"
    by (cases "foldl toc_step ([], {}) xs")
  obtain toc' toc_ids' where st': "toc_step (toc, toc_ids) x = (toc', toc_ids')"
    by (cases "toc_step (toc, toc_ids) x")
  from snoc.prems st st' have e: "e \<in> set toc'" by simp
  show ?case
  proof (cases "e \<in> set toc")
    case True
    with st snoc.IH obtain k tc ti ti' where k: "k < length xs"
      and a: "foldl toc_step ([], {}) (take k xs) = (tc, ti)"
      and b: "toc_step (tc, ti) (xs ! k) = (tc @ [e], ti')"
      by auto
    from k have "take k (xs @ [x]) = take k xs" "(xs @ [x]) ! k = xs ! k"
      by (simp_all add: nth_append)
    with k a b show ?thesis
      by (intro exI [of _ k]) auto
  next
    case False
    with e have ne: "toc' \<noteq> toc" by auto
    from toc_step_adds [OF st' ne] obtain e' where "toc' = toc @ [e']" by blast
    with e False have "toc' = toc @ [e]" by auto
    with st st' show ?thesis
      by (intro exI [of _ "length xs"]) auto
  qed
qed


lemma toc_ids_fold:
  "snd (foldl toc_step (toc, toc_ids) ls) =
     toc_ids \<union> {item_number e | e l. l \<in> set ls \<and> toc_candidate l = Some e}"
proof (induction ls arbitrary: toc toc_ids)
  case Nil
  then show ?case by simp
next
  case (Cons x xs)
  show ?case
  proof (cases "toc_candidate x")
    case None
    then have "toc_step (toc, toc_ids) x = (toc, toc_ids)" by (simp add: toc_step_candidate)
    with Cons [of toc toc_ids] None show ?thesis by auto
  next
    case (Some e)
    show ?thesis
    proof (cases "item_number e \<in> toc_ids")
      case True
      with Some have "toc_step (toc, toc_ids) x = (toc, toc_ids)" by (simp add: toc_step_candidate)
      with Cons [of toc toc_ids] Some True show ?thesis by auto
    next
      case False
      with Some have "toc_step (toc, toc_ids) x = (toc @ [e], insert (item_number e) toc_ids)"
        by (simp add: toc_step_candidate)
      with Cons [of "toc @ [e]" "insert (item_number e) toc_ids"] Some show ?thesis by auto
    qed
  qed
qed

lemma toc_fold_skip:
  assumes "k < length ls"
    and "toc_step (foldl toc_step s0 (take k ls)) (ls ! k) = foldl toc_step s0 (take k ls)"
  shows "foldl toc_step s0 ls = foldl toc_step s0 (take k ls @ drop (Suc k) ls)"
proof -
  have "ls = take k ls @ [ls ! k] @ drop (Suc k) ls"
    using assms(1) by (simp add: id_take_nth_drop [symmetric])
  then have "foldl toc_step s0 ls = foldl toc_step s0 (take k ls @ [ls ! k] @ drop (Suc k) ls)"
    by simp
  also have "\<dots> = foldl toc_step (toc_step (foldl toc_step s0 (take k ls)) (ls ! k)) (drop (Suc k) ls)"
    by (simp only: foldl_append foldl.simps)
  also have "\<dots> = foldl toc_step s0 (take k ls @ drop (Suc k) ls)"
    by (simp only: assms(2) foldl_append)
  finally show ?thesis .
qed

lemma py_split_single: "sep \<notin> set s \<Longrightarrow> py_split sep s = [s]"
  by (induction s) auto

lemma two_headings_lines:
  "py_split 10 (U ''2.1. First Title'' @ [10] @ U ''2.1. Second Title'') =
     [U ''2.1. First Title'', U ''2.1. Second Title'']"
  by (simp add: U_def)

lemma level_of_2_1: "level_of [50, 46, 49] = 2"
  by (simp add: level_of_def)

lemma two_headings_first_step:
  "fmt_step [U ''2.1. First Title'', U ''2.1. Second Title''] init_state =
     \<lparr>cur = 1, in_code_block = False, code_lines = [],
      html = [heading_fragment 2 (U ''2.1'') (U ''2.1. First Title'')]\<rparr>"
  by (simp add: init_state_def fmt_step_def str_eval re_eval has_skip_keyword_def
      skip_keywords_def level_of_2_1 Let_def)

lemma two_headings_toc_first:
  "foldl toc_step ([], {}) (take 1 [U ''2.1. First Title'', U ''2.1. Second Title'']) =
     ([\<lparr>item_id = U ''h-2-1'', item_number = U ''2.1'', item_title = U ''First Title'',
        item_level = 2\<rparr>], {U ''2.1''})"
  by (simp add: str_eval re_eval toc_eval Let_def)

text \<open>The heading fragment, character by character.\<close>

lemma heading_fragment_text:
  "heading_fragment level number stripped =
     U ''<h'' @ py_str (level + 1) @ U '' id=\"h-'' @ replace_char 46 (U ''-'') number @
     U ''\" class=\"heading level-'' @ py_str level @ U ''\">'' @ escape stripped @
     U ''</h'' @ py_str (level + 1) @ U ''>''"
  by (simp add: heading_fragment_def heading_id_def Let_def U_def)

text \<open>
  A number holds digits and periods only, so two numbers with the same id are the same
  number.
\<close>

lemma hyphen_not_decimal: "\<not> isdecimal 45"
  by (simp add: isdecimal_def decimal_zeros_def)

lemma digits_no_hyphen: "digits d \<Longrightarrow> 45 \<notin> set d"
  using hyphen_not_decimal by (auto simp: digits_def list_all_iff)

lemma number_no_hyphen:
  assumes "(n, r) \<in> set (number_re s)"
  shows "45 \<notin> set n"
proof -
  from assms obtain d1 where d1: "digits d1"
    and c: "n = d1 \<or> (\<exists>d2. digits d2 \<and>
           (n = d1 @ 46 # d2 \<or> (\<exists>d3. digits d3 \<and> n = d1 @ 46 # d2 @ 46 # d3)))"
    unfolding number_re_iff by blast
  from c consider "n = d1" | d2 where "digits d2" "n = d1 @ 46 # d2"
    | d2 d3 where "digits d2" "digits d3" "n = d1 @ 46 # d2 @ 46 # d3"
    by blast
  then show ?thesis
  proof cases
    case 1
    with d1 show ?thesis by (simp add: digits_no_hyphen)
  next
    case 2
    with d1 show ?thesis by (simp add: digits_no_hyphen)
  next
    case 3
    with d1 show ?thesis by (simp add: digits_no_hyphen)
  qed
qed

lemma heading_match_number_no_hyphen:
  assumes "heading_match s = Some (n, t)"
  shows "45 \<notin> set n"
proof -
  from assms have "(n, t) \<in> set (heading_matches s)" by (rule heading_match_mem)
  then obtain r1 where "(n, 46 # r1) \<in> set (number_re s)"
    unfolding heading_matches_iff by blast
  then show ?thesis by (rule number_no_hyphen)
qed

lemma replace_period_map:
  "replace_char 46 (U ''-'') a = map (\<lambda>c. if c = 46 then 45 else c) a"
  by (induction a) (simp_all add: replace_char_def U_def)

lemma replace_period_inj:
  "45 \<notin> set a \<Longrightarrow> 45 \<notin> set b \<Longrightarrow>
   replace_char 46 (U ''-'') a = replace_char 46 (U ''-'') b \<Longrightarrow> a = b"
  unfolding replace_period_map
proof (induction a arbitrary: b)
  case Nil
  then show ?case by simp
next
  case (Cons x xs)
  from Cons.prems(3) obtain y ys where b: "b = y # ys" by (cases b) auto
  from Cons.prems b have "(if x = 46 then 45 else x) = (if y = 46 then 45 else y)"
    and t: "map (\<lambda>c. if c = 46 then 45 else c) xs = map (\<lambda>c. if c = 46 then 45 else c) ys"
    and n: "x \<noteq> 45" "y \<noteq> 45" "45 \<notin> set xs" "45 \<notin> set ys"
    by auto
  then have "x = y" by (auto split: if_splits)
  moreover have "xs = ys" using n(3,4) t by (rule Cons.IH)
  ultimately show ?case using b by simp
qed


text \<open>
  Claim C10, as it is stated, has every such line emitted as a heading by the body. The
  document of the three lines \<open>class A {\<close>, \<open>1. http://a.b\<close> and \<open>}\<close> has the line
  \<open>1. http://a.b\<close> matched by the pattern with the title \<open>http://a.b\<close>; the outline is
  empty, and the body is one code fragment that holds the three lines: the brace
  heuristic collects the line before the heading rule sees it.
\<close>

theorem http_line_inside_brace_block_counterexample:
  "heading_match (strip (U ''1. http://a.b'')) = Some (U ''1'', U ''http://a.b'') \<and>
   extract_toc (U ''class A {'' @ [10] @ U ''1. http://a.b'' @ [10] @ U ''}'') = [] \<and>
   format_content_to_html (U ''class A {'' @ [10] @ U ''1. http://a.b'' @ [10] @ U ''}'') [] =
     U ''<pre><code>class A {'' @ [10] @ U ''1. http://a.b'' @ [10] @ U ''}</code></pre>''"
  by (simp add: str_eval re_eval toc_eval fmt_eval Let_def)

text \<open>
  Claim C10, amended. A line that matches the numeric pattern, with a title of length at
  least 4 that holds no denylist keyword and begins with \<open>http\<close>, is left out of the
  outline: the turn of \<open>extract_toc\<close> on it changes neither the list nor the set of
  numbers, so the outline is that of the document without the line. The body has no
  \<open>http\<close> check: when its loop comes to this line outside a fence (the line is neither
  inside a fence nor collected by the brace or indentation rule of an earlier line), the
  next fragment it appends is the heading element of the line, with the id \<open>h-\<close> and the
  number with hyphens for periods. When no accepted heading line of the document has the
  same number, no entry of the outline has that id: the heading has no navigation entry.
\<close>

theorem http_title_heading_without_entry:
  assumes lines: "lines = py_split 10 content" and k: "k < length lines"
    and m: "heading_match (strip (lines ! k)) = Some (number, title)"
    and len: "length title \<ge> 4" and kw: "\<not> has_skip_keyword title"
    and http: "startswith title (U ''http'')"
  shows "(\<forall>toc toc_ids. toc_step (toc, toc_ids) (lines ! k) = (toc, toc_ids)) \<and>
    extract_toc content = fst (foldl toc_step ([], {}) (take k lines @ drop (Suc k) lines)) \<and>
    (\<forall>st. reaches lines init_state st \<and> cur st = k \<and> \<not> in_code_block st \<longrightarrow>
       (\<exists>rest. body_fragments content =
          html st @
          (U ''<h'' @ py_str (level_of number + 1) @ U '' id=\"h-'' @
           replace_char 46 (U ''-'') number @ U ''\" class=\"heading level-'' @
           py_str (level_of number) @ U ''\">'' @ escape (strip (lines ! k)) @
           U ''</h'' @ py_str (level_of number + 1) @ U ''>'') # rest)) \<and>
    ((\<forall>j<length lines. \<forall>e. toc_candidate (lines ! j) = Some e \<longrightarrow> item_number e \<noteq> number) \<longrightarrow>
       (\<forall>e\<in>set (extract_toc content).
          item_id e \<noteq> U ''h-'' @ replace_char 46 (U ''-'') number))"
proof (intro conjI allI impI ballI)
  have s: "strip title = title" using m by (rule heading_match_title_stripped)
  show id: "toc_step (toc, toc_ids) (lines ! k) = (toc, toc_ids)" for toc toc_ids
    using m http s by (simp add: toc_step_def is_valid_def Let_def)
  have "toc_step (foldl toc_step ([], {}) (take k lines)) (lines ! k) =
      foldl toc_step ([], {}) (take k lines)"
    using id by (cases "foldl toc_step ([], {}) (take k lines)") simp
  from toc_fold_skip [OF k this]
  show "extract_toc content = fst (foldl toc_step ([], {}) (take k lines @ drop (Suc k) lines))"
    by (simp add: extract_toc_def lines)
next
  fix st
  assume a: "reaches lines init_state st \<and> cur st = k \<and> \<not> in_code_block st"
  with body_heading [of lines init_state st number title] k m len kw
  have "\<exists>rest. body_fragments content =
      html st @ heading_fragment (level_of number) number (strip (lines ! k)) # rest"
    by (auto simp: body_fragments_def lines)
  then show "\<exists>rest. body_fragments content =
          html st @
          (U ''<h'' @ py_str (level_of number + 1) @ U '' id=\"h-'' @
           replace_char 46 (U ''-'') number @ U ''\" class=\"heading level-'' @
           py_str (level_of number) @ U ''\">'' @ escape (strip (lines ! k)) @
           U ''</h'' @ py_str (level_of number + 1) @ U ''>'') # rest"
    unfolding heading_fragment_text .
next
  fix e
  assume other: "\<forall>j<length lines. \<forall>e. toc_candidate (lines ! j) = Some e \<longrightarrow> item_number e \<noteq> number"
  assume "e \<in> set (extract_toc content)"
  then have "e \<in> set (fst (foldl toc_step ([], {}) lines))"
    by (simp add: extract_toc_def lines)
  from toc_fold_origin [OF this] obtain j toc ti ti' where j: "j < length lines"
    and b: "toc_step (toc, ti) (lines ! j) = (toc @ [e], ti')"
    by blast
  have "toc @ [e] \<noteq> toc" by simp
  from toc_step_adds [OF b this] have c: "toc_candidate (lines ! j) = Some e" by auto
  with other j have ne: "item_number e \<noteq> number" by blast
  from toc_candidate_Some [OF c] obtain n t where
    mj: "heading_match (strip (lines ! j)) = Some (n, t)"
    and ev: "e = \<lparr>item_id = heading_id n, item_number = n, item_title = t,
         item_level = level_of n\<rparr>"
    by blast
  have "45 \<notin> set n" using mj by (rule heading_match_number_no_hyphen)
  moreover have "45 \<notin> set number" using m by (rule heading_match_number_no_hyphen)
  moreover have "n \<noteq> number" using ne ev by simp
  ultimately have "replace_char 46 (U ''-'') n \<noteq> replace_char 46 (U ''-'') number"
    using replace_period_inj by blast
  then show "item_id e \<noteq> U ''h-'' @ replace_char 46 (U ''-'') number"
    by (simp add: ev heading_id_def)
qed

lemma http_doc_lines:
  "py_split 10 (U ''Intro'' @ [10] @ U ''1.2. http://a.b'') = [U ''Intro'', U ''1.2. http://a.b'']"
  by (simp add: U_def)

lemma http_doc_first_step:
  "fmt_step [U ''Intro'', U ''1.2. http://a.b''] init_state =
     \<lparr>cur = 1, in_code_block = False, code_lines = [], html = [U ''<p>Intro</p>'']\<rparr>"
  by (simp add: init_state_def fmt_step_def str_eval re_eval fmt_eval Let_def)

lemma level_of_1_2: "level_of (U ''1.2'') = 2"
  by (simp add: level_of_def U_def)

theorem http_title_heading_without_entry_witness:
  "extract_toc (U ''Intro'' @ [10] @ U ''1.2. http://a.b'') = [] \<and>
   (\<exists>rest. body_fragments (U ''Intro'' @ [10] @ U ''1.2. http://a.b'') =
      [U ''<p>Intro</p>'',
       U ''<h3 id=\"h-1-2\" class=\"heading level-2\">1.2. http://a.b</h3>''] @ rest)"
proof -
  let ?l1 = "U ''Intro''" and ?l2 = "U ''1.2. http://a.b''"
  let ?c = "?l1 @ [10] @ ?l2"
  let ?lines = "[?l1, ?l2]"
  let ?st = "\<lparr>cur = 1, in_code_block = False, code_lines = [], html = [U ''<p>Intro</p>'']\<rparr>"
  have l: "?lines = py_split 10 ?c" by (simp only: http_doc_lines)
  have k: "(1::nat) < length ?lines" by simp
  have s: "strip ?l2 = ?l2" by (simp add: str_eval)
  have m: "heading_match (strip (?lines ! 1)) = Some (U ''1.2'', U ''http://a.b'')"
    unfolding nth_Cons_Suc One_nat_def nth_Cons_0 s by (simp add: str_eval re_eval)
  have len: "length (U ''http://a.b'') \<ge> 4" by (simp add: U_def)
  have kw: "\<not> has_skip_keyword (U ''http://a.b'')"
    by (simp add: has_skip_keyword_def skip_keywords_def str_eval)
  have http: "startswith (U ''http://a.b'') (U ''http'')" by (simp add: str_eval)
  note t = http_title_heading_without_entry [OF l k m len kw http]
  from t have "extract_toc ?c = fst (foldl toc_step ([], {}) (take 1 ?lines @ drop (Suc 1) ?lines))"
    by blast
  then have a: "extract_toc ?c = []"
    by (simp add: str_eval re_eval toc_eval Let_def)
  have "cur init_state < length ?lines" by (simp add: init_state_def)
  then have "reaches ?lines init_state (fmt_step ?lines init_state)" by (rule reaches_one)
  then have r: "reaches ?lines init_state ?st" by (simp only: http_doc_first_step)
  have "cur ?st = 1 \<and> \<not> in_code_block ?st" by simp
  with t r have "\<exists>rest. body_fragments ?c =
          html ?st @
          (U ''<h'' @ py_str (level_of (U ''1.2'') + 1) @ U '' id=\"h-'' @
           replace_char 46 (U ''-'') (U ''1.2'') @ U ''\" class=\"heading level-'' @
           py_str (level_of (U ''1.2'')) @ U ''\">'' @ escape (strip (?lines ! 1)) @
           U ''</h'' @ py_str (level_of (U ''1.2'') + 1) @ U ''>'') # rest"
    by blast
  then have "\<exists>rest. body_fragments ?c =
      [U ''<p>Intro</p>'',
       U ''<h3 id=\"h-1-2\" class=\"heading level-2\">1.2. http://a.b</h3>''] @ rest"
    unfolding level_of_1_2 nth_Cons_Suc One_nat_def nth_Cons_0 s
    by (simp add: py_str_digit str_eval)
  with a show ?thesis by blast
qed


text \<open>
  Claim C6, as it is stated, has every such line emitted as a heading by the body. In the
  document of the four lines \<open>2.1. First Title\<close>, \<open>```\<close>, \<open>2.1. Second Title\<close> and
  \<open>```\<close>, the third line matches the pattern with a title that passes the length and
  denylist checks, and its number is already accepted; the outline holds the first line
  only, and the body renders the third line inside a code fragment: within a fence no
  line comes to the heading rule.
\<close>

theorem duplicate_line_inside_fence_counterexample:
  "heading_match (strip (U ''2.1. Second Title'')) = Some (U ''2.1'', U ''Second Title'') \<and>
   extract_toc
     (U ''2.1. First Title'' @ [10] @ U ''```'' @ [10] @ U ''2.1. Second Title'' @ [10] @
      U ''```'') =
     [\<lparr>item_id = U ''h-2-1'', item_number = U ''2.1'', item_title = U ''First Title'',
       item_level = 2\<rparr>] \<and>
   format_content_to_html
     (U ''2.1. First Title'' @ [10] @ U ''```'' @ [10] @ U ''2.1. Second Title'' @ [10] @
      U ''```'') [] =
     U ''<h3 id=\"h-2-1\" class=\"heading level-2\">2.1. First Title</h3>'' @ [10] @
     U ''<pre><code>2.1. Second Title</code></pre>''"
  by (simp add: str_eval re_eval toc_eval fmt_eval Let_def)

text \<open>
  Claim C6, amended. A line that matches the numeric pattern and passes the length and
  denylist checks, whose number is already in \<open>toc_ids\<close> when \<open>extract_toc\<close> comes to it,
  is dropped from the outline: its turn leaves the list and the set as they are. The body
  does not look at earlier numbers: when its loop comes to this line outside a fence (the
  line is neither inside a fence nor collected by the brace or indentation rule of an
  earlier line), the next fragment it appends is the full heading element of the line,
  with the id \<open>h-\<close> and the number with hyphens for periods.
\<close>

theorem duplicate_number_dropped_from_toc_rendered_in_body:
  assumes lines: "lines = py_split 10 content" and k: "k < length lines"
    and m: "heading_match (strip (lines ! k)) = Some (number, title)"
    and len: "length title \<ge> 4" and kw: "\<not> has_skip_keyword title"
    and dup: "number \<in> snd (foldl toc_step ([], {}) (take k lines))"
  shows "toc_step (foldl toc_step ([], {}) (take k lines)) (lines ! k) =
      foldl toc_step ([], {}) (take k lines) \<and>
    extract_toc content = fst (foldl toc_step ([], {}) (take k lines @ drop (Suc k) lines)) \<and>
    (\<forall>st. reaches lines init_state st \<and> cur st = k \<and> \<not> in_code_block st \<longrightarrow>
       (\<exists>rest. body_fragments content =
          html st @
          (U ''<h'' @ py_str (level_of number + 1) @ U '' id=\"h-'' @
           replace_char 46 (U ''-'') number @ U ''\" class=\"heading level-'' @
           py_str (level_of number) @ U ''\">'' @ escape (strip (lines ! k)) @
           U ''</h'' @ py_str (level_of number + 1) @ U ''>'') # rest))"
proof (intro conjI allI impI)
  obtain toc toc_ids where st: "foldl toc_step ([], {}) (take k lines) = (toc, toc_ids)"
    by (cases "foldl toc_step ([], {}) (take k lines)")
  with dup have "number \<in> toc_ids" by simp
  then have "toc_step (toc, toc_ids) (lines ! k) = (toc, toc_ids)"
    using m by (simp add: toc_step_def is_valid_def Let_def)
  with st show id: "toc_step (foldl toc_step ([], {}) (take k lines)) (lines ! k) =
      foldl toc_step ([], {}) (take k lines)"
    by simp
  from toc_fold_skip [OF k id]
  show "extract_toc content = fst (foldl toc_step ([], {}) (take k lines @ drop (Suc k) lines))"
    by (simp add: extract_toc_def lines)
next
  fix st
  assume a: "reaches lines init_state st \<and> cur st = k \<and> \<not> in_code_block st"
  with body_heading [of lines init_state st number title] k m len kw
  have "\<exists>rest. body_fragments content =
      html st @ heading_fragment (level_of number) number (strip (lines ! k)) # rest"
    by (auto simp: body_fragments_def lines)
  then show "\<exists>rest. body_fragments content =
          html st @
          (U ''<h'' @ py_str (level_of number + 1) @ U '' id=\"h-'' @
           replace_char 46 (U ''-'') number @ U ''\" class=\"heading level-'' @
           py_str (level_of number) @ U ''\">'' @ escape (strip (lines ! k)) @
           U ''</h'' @ py_str (level_of number + 1) @ U ''>'') # rest"
    unfolding heading_fragment_text .
qed

lemma two_headings_first_step_text:
  "fmt_step [U ''2.1. First Title'', U ''2.1. Second Title''] init_state =
     \<lparr>cur = 1, in_code_block = False, code_lines = [],
      html = [U ''<h3 id=\"h-2-1\" class=\"heading level-2\">2.1. First Title</h3>'']\<rparr>"
  unfolding two_headings_first_step heading_fragment_text
  by (simp add: py_str_digit str_eval)

lemma level_of_2_1_U: "level_of (U ''2.1'') = 2"
  by (simp add: level_of_def U_def)

theorem duplicate_number_dropped_from_toc_rendered_in_body_witness:
  "extract_toc (U ''2.1. First Title'' @ [10] @ U ''2.1. Second Title'') =
     [\<lparr>item_id = U ''h-2-1'', item_number = U ''2.1'', item_title = U ''First Title'',
       item_level = 2\<rparr>] \<and>
   (\<exists>rest. body_fragments (U ''2.1. First Title'' @ [10] @ U ''2.1. Second Title'') =
      [U ''<h3 id=\"h-2-1\" class=\"heading level-2\">2.1. First Title</h3>'',
       U ''<h3 id=\"h-2-1\" class=\"heading level-2\">2.1. Second Title</h3>''] @ rest)"
proof -
  let ?l1 = "U ''2.1. First Title''" and ?l2 = "U ''2.1. Second Title''"
  let ?c = "?l1 @ [10] @ ?l2"
  let ?lines = "[?l1, ?l2]"
  let ?st = "\<lparr>cur = 1, in_code_block = False, code_lines = [],
      html = [U ''<h3 id=\"h-2-1\" class=\"heading level-2\">2.1. First Title</h3>'']\<rparr>"
  have l: "?lines = py_split 10 ?c" by (simp only: two_headings_lines)
  have k: "(1::nat) < length ?lines" by simp
  have s: "strip ?l2 = ?l2" by (simp add: str_eval)
  have m: "heading_match (strip (?lines ! 1)) = Some (U ''2.1'', U ''Second Title'')"
    unfolding nth_Cons_Suc One_nat_def nth_Cons_0 s by (simp add: str_eval re_eval)
  have len: "length (U ''Second Title'') \<ge> 4" by (simp add: U_def)
  have kw: "\<not> has_skip_keyword (U ''Second Title'')"
    by (simp add: has_skip_keyword_def skip_keywords_def str_eval)
  have dup: "U ''2.1'' \<in> snd (foldl toc_step ([], {}) (take 1 ?lines))"
    by (simp only: two_headings_toc_first snd_conv) simp
  note t = duplicate_number_dropped_from_toc_rendered_in_body [OF l k m len kw dup]
  have "drop (Suc 1) ?lines = []" by simp
  with t have a: "extract_toc ?c = fst (foldl toc_step ([], {}) (take 1 ?lines))"
    by (simp only: append_Nil2)
  have "cur init_state < length ?lines" by (simp add: init_state_def)
  then have "reaches ?lines init_state (fmt_step ?lines init_state)" by (rule reaches_one)
  then have r: "reaches ?lines init_state ?st" by (simp only: two_headings_first_step_text)
  have "cur ?st = 1 \<and> \<not> in_code_block ?st" by simp
  with t r have "\<exists>rest. body_fragments ?c =
          html ?st @
          (U ''<h'' @ py_str (level_of (U ''2.1'') + 1) @ U '' id=\"h-'' @
           replace_char 46 (U ''-'') (U ''2.1'') @ U ''\" class=\"heading level-'' @
           py_str (level_of (U ''2.1'')) @ U ''\">'' @ escape (strip (?lines ! 1)) @
           U ''</h'' @ py_str (level_of (U ''2.1'') + 1) @ U ''>'') # rest"
    by blast
  then have "\<exists>rest. body_fragments ?c =
      [U ''<h3 id=\"h-2-1\" class=\"heading level-2\">2.1. First Title</h3>'',
       U ''<h3 id=\"h-2-1\" class=\"heading level-2\">2.1. Second Title</h3>''] @ rest"
    unfolding level_of_2_1_U nth_Cons_Suc One_nat_def nth_Cons_0 s
    by (simp add: py_str_digit str_eval)
  with a show ?thesis by (simp only: two_headings_toc_first fst_conv)
qed

text \<open>
  Claim C3, as it is stated, has a heading fragment in the body for every line that
  yields an entry of the outline. \<open>extract_toc\<close> reads every line, the body only those its
  loop comes to outside a fence: in the document of the three lines \<open>```\<close>, \<open>1. ABCD\<close>
  and \<open>```\<close> the second line yields the entry with the id \<open>h-1\<close>, and the body is one
  code fragment, with no heading and no \<open>id\<close> attribute at all.
\<close>

theorem toc_entry_of_line_inside_fence_counterexample:
  "extract_toc (U ''```'' @ [10] @ U ''1. ABCD'' @ [10] @ U ''```'') =
     [\<lparr>item_id = U ''h-1'', item_number = U ''1'', item_title = U ''ABCD'', item_level = 1\<rparr>] \<and>
   format_content_to_html (U ''```'' @ [10] @ U ''1. ABCD'' @ [10] @ U ''```'') [] =
     U ''<pre><code>1. ABCD</code></pre>''"
  by (simp add: str_eval re_eval toc_eval fmt_eval Let_def)

text \<open>
  Claim C3, amended. Every entry of the outline was appended by the turn of
  \<open>extract_toc\<close> on some line \<open>k\<close>; its id is the number with every period replaced by a
  hyphen, after \<open>h-\<close>; and when the loop of the body comes to line \<open>k\<close> outside a fence (the
  line is neither inside a fence nor collected by the brace or indentation rule of an
  earlier line), the fragment it appends is a heading whose \<open>id\<close> attribute is that same
  id, character for character.
\<close>

theorem heading_fragment_id_is_toc_id:
  assumes lines: "lines = py_split 10 content" and e: "e \<in> set (extract_toc content)"
  shows "item_id e = U ''h-'' @ replace_char 46 (U ''-'') (item_number e) \<and>
    (\<exists>k<length lines.
       (\<exists>toc toc_ids toc_ids'.
          foldl toc_step ([], {}) (take k lines) = (toc, toc_ids) \<and>
          toc_step (toc, toc_ids) (lines ! k) = (toc @ [e], toc_ids')) \<and>
       (\<forall>st. reaches lines init_state st \<and> cur st = k \<and> \<not> in_code_block st \<longrightarrow>
          (\<exists>rest. body_fragments content =
             html st @
             (U ''<h'' @ py_str (item_level e + 1) @ U '' id=\"'' @ item_id e @
              U ''\" class=\"heading level-'' @ py_str (item_level e) @ U ''\">'' @
              escape (strip (lines ! k)) @ U ''</h'' @ py_str (item_level e + 1) @ U ''>'') # rest)))"
proof -
  from e have "e \<in> set (fst (foldl toc_step ([], {}) lines))"
    by (simp add: extract_toc_def lines)
  from toc_fold_origin [OF this] obtain k toc toc_ids toc_ids' where k: "k < length lines"
    and a: "foldl toc_step ([], {}) (take k lines) = (toc, toc_ids)"
    and b: "toc_step (toc, toc_ids) (lines ! k) = (toc @ [e], toc_ids')"
    by blast
  have "toc @ [e] \<noteq> toc" by simp
  from toc_step_adds [OF b this] have c: "toc_candidate (lines ! k) = Some e" by auto
  from toc_candidate_Some [OF c] obtain number title where
    m: "heading_match (strip (lines ! k)) = Some (number, title)"
    and ev: "e = \<lparr>item_id = heading_id number, item_number = number, item_title = title,
         item_level = level_of number\<rparr>"
    and len: "length title \<ge> 4" and kw: "\<not> has_skip_keyword title"
    by blast
  have id: "item_id e = U ''h-'' @ replace_char 46 (U ''-'') (item_number e)"
    by (simp add: ev heading_id_def)
  have frag: "heading_fragment (level_of number) number (strip (lines ! k)) =
      U ''<h'' @ py_str (item_level e + 1) @ U '' id=\"'' @ item_id e @
      U ''\" class=\"heading level-'' @ py_str (item_level e) @ U ''\">'' @
      escape (strip (lines ! k)) @ U ''</h'' @ py_str (item_level e + 1) @ U ''>''"
    by (simp add: ev heading_fragment_def Let_def U_def)
  have body: "\<exists>rest. body_fragments content =
      html st @ heading_fragment (level_of number) number (strip (lines ! k)) # rest"
    if "reaches lines init_state st \<and> cur st = k \<and> \<not> in_code_block st" for st
    using body_heading [of lines init_state st number title] that k m len kw
    by (auto simp: body_fragments_def lines)
  show ?thesis
    using id k a b body unfolding frag by blast
qed

lemma toc_deep:
  "extract_toc (U ''2.3.1. Deep Title'') =
     [\<lparr>item_id = U ''h-2-3-1'', item_number = U ''2.3.1'', item_title = U ''Deep Title'',
       item_level = 3\<rparr>]"
  by (simp add: str_eval re_eval toc_eval Let_def)

theorem heading_fragment_id_is_toc_id_witness:
  "U ''h-2-3-1'' = U ''h-'' @ replace_char 46 (U ''-'') (U ''2.3.1'') \<and>
   (\<exists>rest. body_fragments (U ''2.3.1. Deep Title'') =
      U ''<h4 id=\"h-2-3-1\" class=\"heading level-3\">2.3.1. Deep Title</h4>'' # rest)"
proof -
  let ?c = "U ''2.3.1. Deep Title''"
  let ?e = "\<lparr>item_id = U ''h-2-3-1'', item_number = U ''2.3.1'', item_title = U ''Deep Title'',
       item_level = 3\<rparr>"
  have l: "[?c] = py_split 10 ?c" by (simp add: py_split_single U_def)
  have e: "?e \<in> set (extract_toc ?c)" by (simp only: toc_deep) simp
  have s: "strip ?c = ?c" by (simp add: str_eval)
  from heading_fragment_id_is_toc_id [OF l e]
  obtain k where id: "item_id ?e = U ''h-'' @ replace_char 46 (U ''-'') (item_number ?e)"
    and k: "k < length [?c]"
    and body: "\<forall>st. reaches [?c] init_state st \<and> cur st = k \<and> \<not> in_code_block st \<longrightarrow>
          (\<exists>rest. body_fragments ?c =
             html st @
             (U ''<h'' @ py_str (item_level ?e + 1) @ U '' id=\"'' @ item_id ?e @
              U ''\" class=\"heading level-'' @ py_str (item_level ?e) @ U ''\">'' @
              escape (strip ([?c] ! k)) @ U ''</h'' @ py_str (item_level ?e + 1) @ U ''>'') # rest)"
    by blast
  from k have k0: "k = 0" by simp
  have "reaches [?c] init_state init_state \<and> cur init_state = k \<and> \<not> in_code_block init_state"
    by (simp add: k0 init_state_def reaches.start)
  with body have "\<exists>rest. body_fragments ?c =
             html init_state @
             (U ''<h'' @ py_str (item_level ?e + 1) @ U '' id=\"'' @ item_id ?e @
              U ''\" class=\"heading level-'' @ py_str (item_level ?e) @ U ''\">'' @
              escape (strip ([?c] ! k)) @ U ''</h'' @ py_str (item_level ?e + 1) @ U ''>'') # rest"
    by blast
  then have "\<exists>rest. body_fragments ?c =
      U ''<h4 id=\"h-2-3-1\" class=\"heading level-3\">2.3.1. Deep Title</h4>'' # rest"
    unfolding k0 nth_Cons_0 s by (simp add: init_state_def py_str_digit str_eval)
  with id show ?thesis by simp
qed

section \<open>Fenced code\<close>

text \<open>\<open>unescape\<close> undoes \<open>escape\<close>.\<close>

lemma escape_Cons: "escape (c # s) = escape_char c @ escape s"
  by (simp add: escape_def)

lemma unescape_escape: "unescape (escape s) = s"
proof (induction s)
  case Nil
  then show ?case by (simp add: escape_def)
next
  case (Cons c s)
  consider "c = 38" | "c = 60" | "c = 62" | "c = 34" | "c = 39"
    | "c \<noteq> 38 \<and> c \<noteq> 60 \<and> c \<noteq> 62 \<and> c \<noteq> 34 \<and> c \<noteq> 39"
    by blast
  then show ?case
  proof cases
    case 1
    then show ?thesis using Cons by (simp add: escape_Cons escape_char_def U_def startswith_def)
  next
    case 2
    then show ?thesis using Cons by (simp add: escape_Cons escape_char_def U_def startswith_def)
  next
    case 3
    then show ?thesis using Cons by (simp add: escape_Cons escape_char_def U_def startswith_def)
  next
    case 4
    then show ?thesis using Cons by (simp add: escape_Cons escape_char_def U_def startswith_def)
  next
    case 5
    then show ?thesis using Cons by (simp add: escape_Cons escape_char_def U_def startswith_def)
  next
    case 6
    then show ?thesis using Cons by (simp add: escape_Cons escape_char_def)
  qed
qed

text \<open>Inside a fence with no fence line ahead, the loop ends with \<open>html\<close> as it is.\<close>

lemma in_fence_to_end:
  "in_code_block st \<Longrightarrow>
   (\<forall>j. cur st \<le> j \<and> j < length lines \<longrightarrow> \<not> startswith (strip (lines ! j)) (U ''```'')) \<Longrightarrow>
   fmt_loop lines st = html st"
proof (induction lines st rule: fmt_loop.induct)
  case (1 lines st)
  show ?case
  proof (cases "cur st < length lines")
    case False
    then show ?thesis by (simp add: fmt_loop_end)
  next
    case True
    with 1(3) have nf: "\<not> startswith (strip (lines ! cur st)) (U ''```'')" by simp
    have step: "fmt_step lines st =
        st\<lparr>cur := cur st + 1, code_lines := code_lines st @ [lines ! cur st]\<rparr>"
      using nf 1(2) by (rule fmt_step_buffer)
    have "fmt_loop lines (fmt_step lines st) = html (fmt_step lines st)"
    proof (rule 1(1) [OF True])
      show "in_code_block (fmt_step lines st)" using 1(2) by (simp add: step)
      show "\<forall>j. cur (fmt_step lines st) \<le> j \<and> j < length lines \<longrightarrow>
          \<not> startswith (strip (lines ! j)) (U ''```'')"
        using 1(3) by (simp add: step)
    qed
    with True show ?thesis by (simp add: fmt_loop_turn step)
  qed
qed

text \<open>Inside a fence the lines up to the next fence line are appended to the buffer as they are.\<close>

lemma fence_buffer_run:
  "in_code_block st \<Longrightarrow> cur st + n \<le> length lines \<Longrightarrow>
   (\<forall>j. cur st \<le> j \<and> j < cur st + n \<longrightarrow> \<not> startswith (strip (lines ! j)) (U ''```'')) \<Longrightarrow>
   reaches lines st
     (st\<lparr>cur := cur st + n, code_lines := code_lines st @ take n (drop (cur st) lines)\<rparr>)"
proof (induction n)
  case 0
  then show ?case by (simp add: reaches.start)
next
  case (Suc n)
  let ?stn = "st\<lparr>cur := cur st + n, code_lines := code_lines st @ take n (drop (cur st) lines)\<rparr>"
  have r: "reaches lines st ?stn" using Suc by simp
  have c: "cur ?stn < length lines" using Suc.prems(2) by simp
  have nf: "\<not> startswith (strip (lines ! cur ?stn)) (U ''```'')" using Suc.prems(3) by simp
  have inn: "in_code_block ?stn" using Suc.prems(1) by simp
  have t: "take (Suc n) (drop (cur st) lines) = take n (drop (cur st) lines) @ [lines ! (cur st + n)]"
    using Suc.prems(2) by (simp add: take_Suc_conv_app_nth)
  have "fmt_step lines ?stn =
      ?stn\<lparr>cur := cur ?stn + 1, code_lines := code_lines ?stn @ [lines ! cur ?stn]\<rparr>"
    using nf inn by (rule fmt_step_buffer)
  also have "\<dots> = st\<lparr>cur := cur st + Suc n,
      code_lines := code_lines st @ take (Suc n) (drop (cur st) lines)\<rparr>"
    by (simp add: t)
  finally have "fmt_step lines ?stn = st\<lparr>cur := cur st + Suc n,
      code_lines := code_lines st @ take (Suc n) (drop (cur st) lines)\<rparr>" .
  with reaches.turn [OF r c] show ?case by simp
qed

text \<open>
  Claim C9. When the loop is outside a fence at a line whose trimmed content starts with
  three backticks, and no later line's trimmed content does, the list of fragments at the
  end is the list as it was before that line: the opening line and every line after it
  are buffered and add nothing to the output.
\<close>

theorem unterminated_fence_discarded:
  assumes lines: "lines = py_split 10 content"
    and r: "reaches lines init_state st" and c: "cur st < length lines"
    and out: "\<not> in_code_block st"
    and opens: "startswith (strip (lines ! cur st)) (U ''```'')"
    and later: "\<forall>j. cur st < j \<and> j < length lines \<longrightarrow> \<not> startswith (strip (lines ! j)) (U ''```'')"
  shows "body_fragments content = html st \<and>
    format_content_to_html content file_name = py_join [10] (html st)"
proof -
  let ?st1 = "st\<lparr>cur := cur st + 1, in_code_block := True, code_lines := []\<rparr>"
  have step: "fmt_step lines st = ?st1" using opens out by (rule fmt_step_open)
  have "fmt_loop lines ?st1 = html ?st1"
  proof (rule in_fence_to_end)
    show "in_code_block ?st1" by simp
    show "\<forall>j. cur ?st1 \<le> j \<and> j < length lines \<longrightarrow> \<not> startswith (strip (lines ! j)) (U ''```'')"
      using later by simp
  qed
  then have "fmt_loop lines st = html st"
    using c by (simp add: fmt_loop_turn step)
  with reaches_fmt_loop [OF r] have "body_fragments content = html st"
    by (simp add: body_fragments_def lines)
  then show ?thesis by (simp add: format_content_to_html_def)
qed

theorem unterminated_fence_discarded_witness:
  "body_fragments (U ''abc'' @ [10] @ U ''```'' @ [10] @ U ''xyz'' @ [10] @ U ''1. Heading'') =
     [U ''<p>abc</p>''] \<and>
   format_content_to_html
     (U ''abc'' @ [10] @ U ''```'' @ [10] @ U ''xyz'' @ [10] @ U ''1. Heading'') [] =
     U ''<p>abc</p>''"
proof -
  let ?c = "U ''abc'' @ [10] @ U ''```'' @ [10] @ U ''xyz'' @ [10] @ U ''1. Heading''"
  let ?lines = "[U ''abc'', U ''```'', U ''xyz'', U ''1. Heading'']"
  let ?st = "\<lparr>cur = 1, in_code_block = False, code_lines = [], html = [U ''<p>abc</p>'']\<rparr>"
  have l: "?lines = py_split 10 ?c" by (simp add: U_def)
  have s0: "fmt_step ?lines init_state = ?st"
    by (simp add: init_state_def fmt_step_def str_eval re_eval fmt_eval Let_def)
  have "cur init_state < length ?lines" by (simp add: init_state_def)
  then have "reaches ?lines init_state (fmt_step ?lines init_state)" by (rule reaches_one)
  then have r: "reaches ?lines init_state ?st" by (simp only: s0)
  have c: "cur ?st < length ?lines" by simp
  have out: "\<not> in_code_block ?st" by simp
  have opens: "startswith (strip (?lines ! cur ?st)) (U ''```'')" by (simp add: str_eval)
  have later: "\<forall>j. cur ?st < j \<and> j < length ?lines \<longrightarrow>
      \<not> startswith (strip (?lines ! j)) (U ''```'')"
  proof (intro allI impI)
    fix j
    assume "cur ?st < j \<and> j < length ?lines"
    then have "j = 2 \<or> j = 3" by auto
    then show "\<not> startswith (strip (?lines ! j)) (U ''```'')"
      by (auto simp: str_eval)
  qed
  from unterminated_fence_discarded [OF l r c out opens later, of "[]"]
  show ?thesis by (simp add: U_def)
qed

text \<open>
  Claim C2, as the spec states it, has the fence end only at a line that trims to exactly
  three backticks. In the source the closing test is the opening test,
  \<^verbatim>\<open>stripped.startswith('```')\<close>: the line \<open>```js\<close> does not trim to three backticks,
  and it closes the fence opened before it. The text between the first line and the line
  of exactly three backticks is then not the content of one code fragment.
\<close>

theorem fence_closed_by_longer_line_counterexample:
  "strip (U ''```js'') \<noteq> U ''```'' \<and>
   format_content_to_html
     (U ''```'' @ [10] @ U ''a'' @ [10] @ U ''```js'' @ [10] @ U ''b'' @ [10] @ U ''```'') [] =
     U ''<pre><code>a</code></pre>'' @ [10] @ U ''<p>b</p>'' \<and>
   format_content_to_html
     (U ''```'' @ [10] @ U ''a'' @ [10] @ U ''```js'' @ [10] @ U ''b'' @ [10] @ U ''```'') [] \<noteq>
     U ''<pre><code>'' @ escape (U ''a'' @ [10] @ U ''```js'' @ [10] @ U ''b'') @ U ''</code></pre>''"
  by (simp add: str_eval re_eval fmt_eval Let_def)

text \<open>
  Claim C2, amended. When the loop is outside a fence at a line whose trimmed content
  starts with three backticks, and line \<open>c\<close> is the first later line whose trimmed content
  starts with three backticks, then the lines between the two are buffered as they are,
  whatever they contain (backticks elsewhere than at the start, headings, braces), the
  loop comes to the line after \<open>c\<close> outside the fence with an empty buffer, and it has
  appended exactly one fragment: the lines between, joined by newlines and escaped,
  inside \<open><pre><code>\<close> and \<open></code></pre>\<close>. Un-escaping gives the enclosed text back.
\<close>

theorem fence_round_trip:
  assumes lines: "lines = py_split 10 content"
    and r: "reaches lines init_state st" and out: "\<not> in_code_block st"
    and oc: "cur st < c" and c: "c < length lines"
    and opens: "startswith (strip (lines ! cur st)) (U ''```'')"
    and inner: "\<forall>j. cur st < j \<and> j < c \<longrightarrow> \<not> startswith (strip (lines ! j)) (U ''```'')"
    and closes: "startswith (strip (lines ! c)) (U ''```'')"
    and enclosed: "enclosed = py_join [10] (take (c - cur st - 1) (drop (cur st + 1) lines))"
  shows "reaches lines init_state
      (st\<lparr>cur := c + 1, in_code_block := False, code_lines := [],
          html := html st @ [U ''<pre><code>'' @ escape enclosed @ U ''</code></pre>'']\<rparr>) \<and>
    (\<exists>rest. body_fragments content =
       html st @ (U ''<pre><code>'' @ escape enclosed @ U ''</code></pre>'') # rest) \<and>
    unescape (escape enclosed) = enclosed"
proof -
  let ?st1 = "st\<lparr>cur := cur st + 1, in_code_block := True, code_lines := []\<rparr>"
  let ?n = "c - cur st - 1"
  let ?st2 = "?st1\<lparr>cur := cur ?st1 + ?n,
      code_lines := code_lines ?st1 @ take ?n (drop (cur ?st1) lines)\<rparr>"
  let ?st3 = "st\<lparr>cur := c + 1, in_code_block := False, code_lines := [],
          html := html st @ [U ''<pre><code>'' @ escape enclosed @ U ''</code></pre>'']\<rparr>"
  have c0: "cur st < length lines" using oc c by simp
  have s1: "fmt_step lines st = ?st1" using opens out by (rule fmt_step_open)
  have r1: "reaches lines init_state ?st1"
    using reaches.turn [OF r c0] by (simp add: s1)
  have r12: "reaches lines ?st1 ?st2"
  proof (rule fence_buffer_run)
    show "in_code_block ?st1" by simp
    show "cur ?st1 + ?n \<le> length lines" using oc c by simp
    show "\<forall>j. cur ?st1 \<le> j \<and> j < cur ?st1 + ?n \<longrightarrow> \<not> startswith (strip (lines ! j)) (U ''```'')"
      using inner oc by simp
  qed
  have r2: "reaches lines init_state ?st2" by (rule reaches_trans [OF r12 r1])
  have cur2: "cur ?st2 = c" using oc by simp
  have c2: "cur ?st2 < length lines" using c cur2 by simp
  have "fmt_step lines ?st2 =
      ?st2\<lparr>cur := cur ?st2 + 1, in_code_block := False, code_lines := [],
        html := html ?st2 @ [code_fragment (py_join [10] (code_lines ?st2))]\<rparr>"
  proof (rule fmt_step_close)
    show "startswith (strip (lines ! cur ?st2)) (U ''```'')" using closes cur2 by simp
    show "in_code_block ?st2" by simp
  qed
  also have "\<dots> = ?st3"
    using oc by (simp add: enclosed code_fragment_def)
  finally have s3: "fmt_step lines ?st2 = ?st3" .
  have r3: "reaches lines init_state ?st3"
    using reaches.turn [OF r2 c2] by (simp only: s3)
  obtain rest where "fmt_loop lines ?st3 = html ?st3 @ rest"
    using fmt_loop_prefix by blast
  with reaches_fmt_loop [OF r3] have "body_fragments content =
      html st @ (U ''<pre><code>'' @ escape enclosed @ U ''</code></pre>'') # rest"
    by (simp add: body_fragments_def lines)
  with r3 show ?thesis by (auto simp: unescape_escape)
qed

theorem fence_round_trip_witness:
  "(\<exists>rest. body_fragments
       (U ''```py'' @ [10] @ U ''x ``` <y>'' @ [10] @ U ''1. Heading'' @ [10] @ U ''```'' @
        [10] @ U ''after'') =
      (U ''<pre><code>x ``` &lt;y&gt;'' @ [10] @ U ''1. Heading</code></pre>'') # rest) \<and>
   unescape (U ''x ``` &lt;y&gt;'' @ [10] @ U ''1. Heading'') =
     U ''x ``` <y>'' @ [10] @ U ''1. Heading''"
proof -
  let ?c = "U ''```py'' @ [10] @ U ''x ``` <y>'' @ [10] @ U ''1. Heading'' @ [10] @ U ''```'' @
        [10] @ U ''after''"
  let ?lines = "[U ''```py'', U ''x ``` <y>'', U ''1. Heading'', U ''```'', U ''after'']"
  let ?t = "U ''x ``` <y>'' @ [10] @ U ''1. Heading''"
  have l: "?lines = py_split 10 ?c" by (simp add: U_def)
  have r: "reaches ?lines init_state init_state" by (rule reaches.start)
  have out: "\<not> in_code_block init_state" by (simp add: init_state_def)
  have oc: "cur init_state < 3" by (simp add: init_state_def)
  have c: "3 < length ?lines" by simp
  have opens: "startswith (strip (?lines ! cur init_state)) (U ''```'')"
    by (simp add: init_state_def str_eval)
  have inner: "\<forall>j. cur init_state < j \<and> j < 3 \<longrightarrow>
      \<not> startswith (strip (?lines ! j)) (U ''```'')"
  proof (intro allI impI)
    fix j
    assume "cur init_state < j \<and> j < 3"
    then have "j = 1 \<or> j = 2" by (auto simp: init_state_def)
    then show "\<not> startswith (strip (?lines ! j)) (U ''```'')"
      by (auto simp: str_eval)
  qed
  have closes: "startswith (strip (?lines ! 3)) (U ''```'')" by (simp add: str_eval)
  have enclosed: "?t = py_join [10] (take (3 - cur init_state - 1) (drop (cur init_state + 1) ?lines))"
    by (simp add: init_state_def U_def)
  have e: "escape ?t = U ''x ``` &lt;y&gt;'' @ [10] @ U ''1. Heading''"
    by (simp add: str_eval)
  from fence_round_trip [OF l r out oc c opens inner closes enclosed]
  have "(\<exists>rest. body_fragments ?c =
       html init_state @ (U ''<pre><code>'' @ escape ?t @ U ''</code></pre>'') # rest) \<and>
    unescape (escape ?t) = ?t"
    by blast
  then show ?thesis
    unfolding e by (simp add: init_state_def U_def)
qed

section \<open>The brace heuristic\<close>

lemma py_split_append:
  "sep \<notin> set a \<Longrightarrow> py_split sep (a @ sep # b) = a # py_split sep b"
  by (induction a) auto

lemma foo_line_facts:
  "strip (U ''public void foo() {'') = U ''public void foo() {''"
  "\<not> startswith (U ''public void foo() {'') (U ''```'')"
  "heading_match (U ''public void foo() {'') = None"
  "starts_code (U ''public void foo() {'')"
  "brace_delta (U ''public void foo() {'') = 1"
  "brace_delta (U ''}'') = - 1"
  "10 \<notin> set (U ''public void foo() {'')"
  "10 \<notin> set (U ''}'')"
  by (simp_all add: str_eval re_eval starts_code_def startswith_any_def java_keywords_def
      brace_delta_def)

text \<open>
  Claim C8. The document of four lines, \<open>public void foo() {\<close>, two lines and a line
  that is only \<open>}\<close>, where the two lines leave the running balance positive and bring it
  back to one (as two lines without braces do), is collected whole by the brace
  heuristic: the cursor ends at 4, the buffer is the four lines and the balance is zero,
  reached at the last line; the output is one code fragment, the four lines joined by
  newlines and escaped. A lone collected line whose balance is not zero is a paragraph
  instead: the one-line document \<open>public void foo() {\<close> renders as a paragraph, and so
  does every turn of the loop in which the heuristic returns the line alone with a
  balance other than zero.
\<close>

theorem brace_block_and_lone_line:
  assumes nl: "10 \<notin> set l2" "10 \<notin> set l3"
    and d2: "0 \<le> brace_delta l2" and d3: "brace_delta l2 + brace_delta l3 = 0"
  shows "brace_collect [U ''public void foo() {'', l2, l3, U ''}''] 0 =
      (4, [U ''public void foo() {'', l2, l3, U ''}''], 0) \<and>
    format_content_to_html
      (U ''public void foo() {'' @ [10] @ l2 @ [10] @ l3 @ [10] @ U ''}'') file_name =
      U ''<pre><code>'' @
      escape (U ''public void foo() {'' @ [10] @ l2 @ [10] @ l3 @ [10] @ U ''}'') @
      U ''</code></pre>'' \<and>
    format_content_to_html (U ''public void foo() {'') file_name =
      U ''<p>public void foo() {</p>'' \<and>
    (\<forall>lines st i' brace_count.
       cur st < length lines \<and> \<not> in_code_block st \<and>
       \<not> startswith (strip (lines ! cur st)) (U ''```'') \<and>
       heading_match (strip (lines ! cur st)) = None \<and>
       starts_code (strip (lines ! cur st)) \<and>
       brace_collect lines (cur st) = (i', [lines ! cur st], brace_count) \<and> brace_count \<noteq> 0 \<longrightarrow>
       fmt_step lines st =
         st\<lparr>cur := i', html := html st @ [U ''<p>'' @ escape (lines ! cur st) @ U ''</p>'']\<rparr>)"
proof (intro conjI allI impI)
  let ?l1 = "U ''public void foo() {''" and ?l4 = "U ''}''"
  let ?lines = "[?l1, l2, l3, ?l4]"
  let ?c = "?l1 @ [10] @ l2 @ [10] @ l3 @ [10] @ ?l4"
  have w4: "brace_while ?lines 4 ?lines 0 = (4, ?lines, 0)"
    by (rule brace_while_stop) simp
  have w3: "brace_while ?lines 3 [?l1, l2, l3] 1 = brace_while ?lines 4 ?lines 0"
    using brace_while_more [of 3 ?lines 1 "[?l1, l2, l3]"]
    by (simp add: foo_line_facts eval_nat_numeral)
  have d23: "1 + brace_delta l2 + brace_delta l3 = 1" using d3 by arith
  have w2: "brace_while ?lines 2 [?l1, l2] (1 + brace_delta l2) = brace_while ?lines 3 [?l1, l2, l3] 1"
    using brace_while_more [of 2 ?lines "1 + brace_delta l2" "[?l1, l2]"] d2
    by (simp add: d23 eval_nat_numeral)
  have w1: "brace_while ?lines 1 [?l1] 1 = brace_while ?lines 2 [?l1, l2] (1 + brace_delta l2)"
    using brace_while_more [of 1 ?lines 1 "[?l1]"]
    by (simp add: eval_nat_numeral)
  have w: "brace_while ?lines (Suc 0) [?l1] 1 = (4, ?lines, 0)"
    using w1 w2 w3 w4 by simp
  show bc: "brace_collect ?lines 0 = (4, ?lines, 0)"
    by (simp add: brace_collect_def Let_def foo_line_facts w)
  have split: "py_split 10 ?c = ?lines"
    using nl by (simp add: py_split_append py_split_single foo_line_facts)
  have step: "fmt_step ?lines init_state =
      \<lparr>cur = 4, in_code_block = False, code_lines = [],
       html = [code_fragment (py_join [10] ?lines)]\<rparr>"
    using fmt_step_brace [of ?lines init_state 4 ?lines 0]
    by (simp add: init_state_def foo_line_facts bc)
  have "cur init_state < length ?lines" by (simp add: init_state_def)
  then have "fmt_loop ?lines init_state = fmt_loop ?lines (fmt_step ?lines init_state)"
    by (rule fmt_loop_turn)
  also have "\<dots> = [code_fragment (py_join [10] ?lines)]"
    unfolding step by (rule trans [OF fmt_loop_end]) simp_all
  finally have "fmt_loop ?lines init_state = [code_fragment (py_join [10] ?lines)]" .
  with split show "format_content_to_html ?c file_name =
      U ''<pre><code>'' @ escape ?c @ U ''</code></pre>''"
    by (simp add: format_content_to_html_def body_fragments_def code_fragment_def)
  show "format_content_to_html ?l1 file_name = U ''<p>public void foo() {</p>''"
    by (simp add: str_eval re_eval fmt_eval Let_def)
next
  fix lines and st :: fmt_state and i' brace_count
  assume a: "cur st < length lines \<and> \<not> in_code_block st \<and>
       \<not> startswith (strip (lines ! cur st)) (U ''```'') \<and>
       heading_match (strip (lines ! cur st)) = None \<and>
       starts_code (strip (lines ! cur st)) \<and>
       brace_collect lines (cur st) = (i', [lines ! cur st], brace_count) \<and> brace_count \<noteq> 0"
  then show "fmt_step lines st =
      st\<lparr>cur := i', html := html st @ [U ''<p>'' @ escape (lines ! cur st) @ U ''</p>'']\<rparr>"
    using fmt_step_brace [of lines st i' "[lines ! cur st]" brace_count]
    by (simp add: paragraph_fragment_def)
qed


theorem brace_block_and_lone_line_witness:
  "brace_collect [U ''public void foo() {'', U ''  int a = 1;'', U ''  return a;'', U ''}''] 0 =
     (4, [U ''public void foo() {'', U ''  int a = 1;'', U ''  return a;'', U ''}''], 0) \<and>
   format_content_to_html
     (U ''public void foo() {'' @ [10] @ U ''  int a = 1;'' @ [10] @ U ''  return a;'' @ [10] @
      U ''}'') [] =
     U ''<pre><code>public void foo() {'' @ [10] @ U ''  int a = 1;'' @ [10] @
     U ''  return a;'' @ [10] @ U ''}</code></pre>''"
proof -
  let ?l2 = "U ''  int a = 1;''" and ?l3 = "U ''  return a;''"
  have nl: "10 \<notin> set ?l2" "10 \<notin> set ?l3" by (simp_all add: U_def)
  have d2: "0 \<le> brace_delta ?l2" by (simp add: brace_delta_def str_eval)
  have d3: "brace_delta ?l2 + brace_delta ?l3 = 0" by (simp add: brace_delta_def str_eval)
  have e: "escape (U ''public void foo() {'' @ [10] @ ?l2 @ [10] @ ?l3 @ [10] @ U ''}'') =
      U ''public void foo() {'' @ [10] @ ?l2 @ [10] @ ?l3 @ [10] @ U ''}''"
    by (simp add: str_eval)
  from brace_block_and_lone_line [OF nl d2 d3, of "[]"]
  show ?thesis unfolding e by (simp add: U_def)
qed

section \<open>The numbers of the outline\<close>

text \<open>
  The loop of \<open>extract_toc\<close> keeps \<open>toc_ids\<close> equal to the set of the numbers in \<open>toc\<close>,
  and these numbers distinct; \<open>toc\<close> only grows at its end.
\<close>

lemma toc_step_inv:
  assumes ids: "toc_ids = item_number ` set toc" and dist: "distinct (map item_number toc)"
    and step: "toc_step (toc, toc_ids) line = (toc', toc_ids')"
  shows "toc_ids' = item_number ` set toc' \<and> distinct (map item_number toc')"
proof -
  have same: ?thesis if "(toc, toc_ids) = (toc', toc_ids')"
  proof -
    from that have "toc' = toc" "toc_ids' = toc_ids" by simp_all
    then show ?thesis using ids dist by simp
  qed
  show ?thesis
  proof (cases "toc_candidate line")
    case None
    with step have "(toc, toc_ids) = (toc', toc_ids')" by (simp add: toc_step_candidate)
    then show ?thesis by (rule same)
  next
    case (Some e)
    show ?thesis
    proof (cases "item_number e \<in> toc_ids")
      case True
      with Some step have "(toc, toc_ids) = (toc', toc_ids')" by (simp add: toc_step_candidate)
      then show ?thesis by (rule same)
    next
      case False
      with Some step have "(toc @ [e], insert (item_number e) toc_ids) = (toc', toc_ids')"
        by (simp add: toc_step_candidate)
      then have e: "toc' = toc @ [e]" "toc_ids' = insert (item_number e) toc_ids" by simp_all
      have "item_number e \<notin> item_number ` set toc" using False ids by simp
      then have "distinct (map item_number (toc @ [e]))" using dist by simp
      moreover have "insert (item_number e) toc_ids = item_number ` set (toc @ [e])"
        using ids by simp
      ultimately show ?thesis unfolding e by (rule conjI [rotated])
    qed
  qed
qed

lemma toc_fold_inv:
  "toc_ids = item_number ` set toc \<Longrightarrow> distinct (map item_number toc) \<Longrightarrow>
   foldl toc_step (toc, toc_ids) ls = (toc', toc_ids') \<Longrightarrow>
   toc_ids' = item_number ` set toc' \<and> distinct (map item_number toc')"
proof (induction ls arbitrary: toc toc_ids)
  case Nil
  from Nil(3) have "toc' = toc" "toc_ids' = toc_ids" by simp_all
  with Nil(1,2) show ?case by simp
next
  case (Cons x xs)
  obtain t1 i1 where s: "toc_step (toc, toc_ids) x = (t1, i1)"
    by (cases "toc_step (toc, toc_ids) x")
  from toc_step_inv [OF Cons.prems(1,2) s]
  have "i1 = item_number ` set t1" "distinct (map item_number t1)" by simp_all
  moreover have "foldl toc_step (t1, i1) xs = (toc', toc_ids')"
    using Cons.prems(3) s by simp
  ultimately show ?case by (rule Cons.IH)
qed

lemma toc_fold_prefix: "\<exists>more. fst (foldl toc_step (toc, toc_ids) ls) = toc @ more"
proof (induction ls arbitrary: toc toc_ids)
  case Nil
  then show ?case by simp
next
  case (Cons x xs)
  obtain t1 i1 where s: "toc_step (toc, toc_ids) x = (t1, i1)"
    by (cases "toc_step (toc, toc_ids) x")
  then have "\<exists>m. t1 = toc @ m"
    unfolding toc_step_candidate by (auto split: option.splits if_splits)
  moreover obtain more where "fst (foldl toc_step (t1, i1) xs) = t1 @ more"
    using Cons.IH by blast
  ultimately show ?case using s by auto
qed

lemma toc_first_in:
  "k < length ls \<Longrightarrow> toc_candidate (ls ! k) = Some e \<Longrightarrow>
   (\<forall>j<k. \<forall>e'. toc_candidate (ls ! j) = Some e' \<longrightarrow> item_number e' \<noteq> item_number e) \<Longrightarrow>
   item_number e \<notin> toc_ids \<Longrightarrow>
   e \<in> set (fst (foldl toc_step (toc, toc_ids) ls))"
proof (induction ls arbitrary: k toc toc_ids)
  case Nil
  then show ?case by simp
next
  case (Cons x xs)
  show ?case
  proof (cases k)
    case 0
    with Cons.prems have "toc_step (toc, toc_ids) x = (toc @ [e], insert (item_number e) toc_ids)"
      by (simp add: toc_step_candidate)
    moreover obtain more where
      "fst (foldl toc_step (toc @ [e], insert (item_number e) toc_ids) xs) = (toc @ [e]) @ more"
      using toc_fold_prefix by blast
    ultimately show ?thesis by simp
  next
    case (Suc k')
    obtain t1 i1 where s: "toc_step (toc, toc_ids) x = (t1, i1)"
      by (cases "toc_step (toc, toc_ids) x")
    have x: "\<forall>e'. toc_candidate x = Some e' \<longrightarrow> item_number e' \<noteq> item_number e"
      using Cons.prems(3) Suc by auto
    have i1: "item_number e \<notin> i1"
      using s x Cons.prems(4) unfolding toc_step_candidate
      by (auto split: option.splits if_splits)
    have "e \<in> set (fst (foldl toc_step (t1, i1) xs))"
    proof (rule Cons.IH [of k'])
      show "k' < length xs" using Cons.prems(1) Suc by simp
      show "toc_candidate (xs ! k') = Some e" using Cons.prems(2) Suc by simp
      show "\<forall>j<k'. \<forall>e'. toc_candidate (xs ! j) = Some e' \<longrightarrow> item_number e' \<noteq> item_number e"
        using Cons.prems(3) Suc by auto
      show "item_number e \<notin> i1" by (rule i1)
    qed
    with s show ?thesis by simp
  qed
qed

lemma distinct_filter_single:
  "distinct (map f xs) \<Longrightarrow> e \<in> set xs \<Longrightarrow> filter (\<lambda>x. f x = f e) xs = [e]"
proof (induction xs)
  case Nil
  then show ?case by simp
next
  case (Cons x xs)
  show ?case
  proof (cases "x = e")
    case True
    with Cons.prems(1) have "f e \<notin> f ` set xs" by simp
    then have "\<forall>y\<in>set xs. f y \<noteq> f e" by (metis imageI)
    then have "filter (\<lambda>x. f x = f e) xs = []" by (simp add: filter_empty_conv)
    with True show ?thesis by simp
  next
    case False
    with Cons.prems have e: "e \<in> set xs" and "f x \<noteq> f e" by auto
    with Cons show ?thesis by simp
  qed
qed

text \<open>
  Claim C5. The numbers of the entries of an outline are distinct. When line \<open>k\<close> is an
  accepted heading line (it passes the four checks that do not depend on earlier lines,
  so that \<open>toc_candidate\<close> gives its entry \<open>e\<close>) and no accepted line before it has the
  same number, then the entries of the outline with that number are exactly \<open>e\<close>: one
  entry, that of the first occurrence, with the first line's title, however many accepted
  lines with the number follow.
\<close>

theorem toc_numbers_unique_first_wins:
  assumes lines: "lines = py_split 10 content"
  shows "distinct (map item_number (extract_toc content)) \<and>
    (\<forall>k e. k < length lines \<and> toc_candidate (lines ! k) = Some e \<and>
       (\<forall>j<k. \<forall>e'. toc_candidate (lines ! j) = Some e' \<longrightarrow> item_number e' \<noteq> item_number e) \<longrightarrow>
       filter (\<lambda>x. item_number x = item_number e) (extract_toc content) = [e])"
proof -
  obtain toc' ids' where f: "foldl toc_step ([], {}) lines = (toc', ids')"
    by (cases "foldl toc_step ([], {}) lines")
  then have t: "extract_toc content = toc'" by (simp add: extract_toc_def lines)
  from toc_fold_inv [OF _ _ f] have d: "distinct (map item_number toc')" by simp
  have "filter (\<lambda>x. item_number x = item_number e) toc' = [e]"
    if "k < length lines \<and> toc_candidate (lines ! k) = Some e \<and>
       (\<forall>j<k. \<forall>e'. toc_candidate (lines ! j) = Some e' \<longrightarrow> item_number e' \<noteq> item_number e)"
    for k e
  proof -
    from that have "e \<in> set (fst (foldl toc_step ([], {}) lines))"
      by (intro toc_first_in [of k]) auto
    then have "e \<in> set toc'" by (simp add: f)
    with d show ?thesis by (rule distinct_filter_single)
  qed
  with d t show ?thesis by blast
qed

theorem toc_numbers_unique_first_wins_witness:
  "extract_toc (U ''2.1. First Title'' @ [10] @ U ''2.1. Second Title'') =
     [\<lparr>item_id = U ''h-2-1'', item_number = U ''2.1'', item_title = U ''First Title'',
       item_level = 2\<rparr>]"
proof -
  let ?c = "U ''2.1. First Title'' @ [10] @ U ''2.1. Second Title''"
  let ?lines = "[U ''2.1. First Title'', U ''2.1. Second Title'']"
  let ?e = "\<lparr>item_id = U ''h-2-1'', item_number = U ''2.1'', item_title = U ''First Title'',
       item_level = 2\<rparr>"
  have l: "?lines = py_split 10 ?c" by (simp only: two_headings_lines)
  have c0: "toc_candidate (?lines ! 0) = Some ?e"
    by (simp add: toc_candidate_def str_eval re_eval toc_eval Let_def)
  have c1: "\<exists>e. toc_candidate (?lines ! 1) = Some e \<and> item_number e = U ''2.1''"
    by (simp add: toc_candidate_def str_eval re_eval toc_eval Let_def)
  note t = toc_numbers_unique_first_wins [OF l]
  from t have d: "distinct (map item_number (extract_toc ?c))" by blast
  have "(0::nat) < length ?lines \<and> toc_candidate (?lines ! 0) = Some ?e \<and>
       (\<forall>j<0. \<forall>e'. toc_candidate (?lines ! j) = Some e' \<longrightarrow> item_number e' \<noteq> item_number ?e)"
    using c0 by simp
  with t have one: "filter (\<lambda>x. item_number x = item_number ?e) (extract_toc ?c) = [?e]"
    by blast
  have all: "\<forall>x \<in> set (extract_toc ?c). item_number x = item_number ?e"
  proof
    fix x
    assume "x \<in> set (extract_toc ?c)"
    then have "x \<in> set (fst (foldl toc_step ([], {}) ?lines))"
      by (simp only: extract_toc_def two_headings_lines)
    from toc_fold_origin [OF this] obtain k toc ti ti' where k: "k < length ?lines"
      and b: "toc_step (toc, ti) (?lines ! k) = (toc @ [x], ti')"
      by blast
    have "toc @ [x] \<noteq> toc" by simp
    from toc_step_adds [OF b this] have cx: "toc_candidate (?lines ! k) = Some x" by auto
    from k have "k = 0 \<or> k = 1" by auto
    with cx c0 c1 show "item_number x = item_number ?e" by auto
  qed
  then have "filter (\<lambda>x. item_number x = item_number ?e) (extract_toc ?c) = extract_toc ?c"
    by (simp add: filter_id_conv)
  with one show ?thesis by simp
qed

section \<open>The shape of a heading line\<close>

lemma number_re_join:
  assumes "1 \<le> length ns" "length ns \<le> 3" "list_all digits ns"
  shows "(py_join [46] ns, r) \<in> set (number_re (py_join [46] ns @ r))"
proof -
  from assms(1,2) consider a where "ns = [a]" | a b where "ns = [a, b]"
    | a b c where "ns = [a, b, c]"
    by (cases ns; cases "tl ns"; cases "tl (tl ns)"; cases "tl (tl (tl ns))") auto
  then show ?thesis
  proof cases
    case 1
    with assms(3) show ?thesis unfolding number_re_iff by auto
  next
    case 2
    with assms(3) show ?thesis unfolding number_re_iff by auto
  next
    case 3
    with assms(3) show ?thesis unfolding number_re_iff by auto
  qed
qed

lemma number_re_is_join:
  assumes "(n, r) \<in> set (number_re s)"
  shows "\<exists>ns. 1 \<le> length ns \<and> length ns \<le> 3 \<and> list_all digits ns \<and> n = py_join [46] ns"
proof -
  from assms obtain d1 where d1: "digits d1"
    and c: "n = d1 \<or> (\<exists>d2. digits d2 \<and>
           (n = d1 @ 46 # d2 \<or> (\<exists>d3. digits d3 \<and> n = d1 @ 46 # d2 @ 46 # d3)))"
    unfolding number_re_iff by blast
  from c consider "n = d1" | d2 where "digits d2" "n = d1 @ 46 # d2"
    | d2 d3 where "digits d2" "digits d3" "n = d1 @ 46 # d2 @ 46 # d3"
    by blast
  then show ?thesis
  proof cases
    case 1
    with d1 show ?thesis by (intro exI [of _ "[d1]"]) simp
  next
    case 2
    with d1 show ?thesis by (intro exI [of _ "[d1, d2]"]) simp
  next
    case 3
    with d1 show ?thesis by (intro exI [of _ "[d1, d2, d3]"]) simp
  qed
qed

lemma py_split_no_sep: "l \<in> set (py_split sep s) \<Longrightarrow> sep \<notin> set l"
proof (induction s arbitrary: l)
  case Nil
  then show ?case by simp
next
  case (Cons c cs)
  then show ?case
    by (cases "py_split sep cs") (auto split: if_splits)
qed

lemma strip_subset: "set (strip l) \<subseteq> set l"
proof -
  have "set (rstrip u) \<subseteq> set u" for u
    using set_dropWhileD [of _ isspace "rev u"] by (auto simp: rstrip_def)
  moreover have "set (lstrip l) \<subseteq> set l"
    by (auto simp: lstrip_def dest: set_dropWhileD)
  ultimately show ?thesis unfolding strip_def by blast
qed

lemma spec_heading_shape_space: "spec_heading_shape s \<Longrightarrow> 32 \<in> set s"
  by (auto simp: spec_heading_shape_def)

text \<open>
  Claim C4, as the spec states it, asks for a single space after the period. The pattern
  has \<^verbatim>\<open>\s+\<close> there: the line \<open>1.\<close>, a tab, \<open>ABCD\<close> is matched, with number \<open>1\<close> and
  title \<open>ABCD\<close>, and it does not have the shape of the spec, which holds a space.
\<close>

theorem heading_after_tab_counterexample:
  "heading_match (U ''1.'' @ [9] @ U ''ABCD'') = Some (U ''1'', U ''ABCD'') \<and>
   \<not> spec_heading_shape (U ''1.'' @ [9] @ U ''ABCD'')"
proof
  show "heading_match (U ''1.'' @ [9] @ U ''ABCD'') = Some (U ''1'', U ''ABCD'')"
    by (simp add: str_eval re_eval)
  have "32 \<notin> set (U ''1.'' @ [9] @ U ''ABCD'')" by (simp add: U_def)
  then show "\<not> spec_heading_shape (U ''1.'' @ [9] @ U ''ABCD'')"
    using spec_heading_shape_space by blast
qed

text \<open>
  Claim C4, amended. A text without a newline is matched by the heading pattern, the one
  pattern of \<open>extract_toc\<close> and of the body, if and only if it is one to three non-empty
  runs of decimal digits (the digits of \<^verbatim>\<open>\d\<close>) separated by periods, then a period, then
  one or more white space characters (the characters of \<^verbatim>\<open>\s\<close>: a space, a tab and the
  others), then a remainder that is not empty. The trimmed lines of a document are such
  texts: no line of \<^verbatim>\<open>content.split('\n')\<close> holds a newline.
\<close>

theorem heading_pattern_shape:
  "(10 \<notin> set s \<longrightarrow>
      (heading_match s \<noteq> None \<longleftrightarrow>
        (\<exists>ns ws rest. 1 \<le> length ns \<and> length ns \<le> 3 \<and> list_all digits ns \<and>
           ws \<noteq> [] \<and> list_all isspace ws \<and> rest \<noteq> [] \<and>
           s = py_join [46] ns @ [46] @ ws @ rest))) \<and>
   (\<forall>l \<in> set (py_split 10 content). 10 \<notin> set (strip l))"
proof (intro conjI impI ballI iffI)
  assume "heading_match s \<noteq> None"
  then obtain n t where "heading_match s = Some (n, t)" by auto
  then have "(n, t) \<in> set (heading_matches s)" by (rule heading_match_mem)
  then obtain r1 ws r3 r4 where nr: "(n, 46 # r1) \<in> set (number_re s)"
    and w: "(ws, r3) \<in> set (greedy_plus isspace r1)"
    and tt: "(t, r4) \<in> set (greedy_plus anychar r3)"
    unfolding heading_matches_iff by blast
  from number_re_is_join [OF nr] obtain ns where ns: "1 \<le> length ns" "length ns \<le> 3"
    "list_all digits ns" "n = py_join [46] ns"
    by blast
  from nr have s: "s = n @ 46 # r1" by (simp add: number_re_iff)
  from w have ws: "ws @ r3 = r1" "ws \<noteq> []" "list_all isspace ws"
    by (simp_all add: greedy_plus_iff list_all_iff)
  from tt have "r3 \<noteq> []" by (auto simp: greedy_plus_iff)
  moreover have "s = py_join [46] ns @ [46] @ ws @ r3" using s ws(1) ns(4) by simp
  ultimately show "\<exists>ns ws rest. 1 \<le> length ns \<and> length ns \<le> 3 \<and> list_all digits ns \<and>
           ws \<noteq> [] \<and> list_all isspace ws \<and> rest \<noteq> [] \<and>
           s = py_join [46] ns @ [46] @ ws @ rest"
    using ns(1,2,3) ws(2,3) by blast
next
  assume nl: "10 \<notin> set s"
  assume "\<exists>ns ws rest. 1 \<le> length ns \<and> length ns \<le> 3 \<and> list_all digits ns \<and>
           ws \<noteq> [] \<and> list_all isspace ws \<and> rest \<noteq> [] \<and>
           s = py_join [46] ns @ [46] @ ws @ rest"
  then obtain ns ws rest where ns: "1 \<le> length ns" "length ns \<le> 3" "list_all digits ns"
    and ws: "ws \<noteq> []" "list_all isspace ws" and rest: "rest \<noteq> []"
    and s: "s = py_join [46] ns @ [46] @ ws @ rest"
    by blast
  have "(py_join [46] ns, 46 # ws @ rest) \<in> set (number_re (py_join [46] ns @ 46 # ws @ rest))"
    using ns by (rule number_re_join)
  then have a: "(py_join [46] ns, 46 # ws @ rest) \<in> set (number_re s)" using s by simp
  have b: "(ws, rest) \<in> set (greedy_plus isspace (ws @ rest))"
    using ws by (simp add: greedy_plus_iff list_all_iff)
  have "\<forall>x\<in>set rest. anychar x" using nl s by (auto simp: anychar_def)
  then have c: "(rest, []) \<in> set (greedy_plus anychar rest)"
    using rest by (simp add: greedy_plus_iff)
  have "at_end []" by (simp add: at_end_def)
  with a b c have "(py_join [46] ns, rest) \<in> set (heading_matches s)"
    unfolding heading_matches_iff by blast
  then have "heading_matches s \<noteq> []" by auto
  then show "heading_match s \<noteq> None" by (simp add: heading_match_None_iff)
next
  fix l
  assume "l \<in> set (py_split 10 content)"
  then have "10 \<notin> set l" by (rule py_split_no_sep)
  with strip_subset [of l] show "10 \<notin> set (strip l)" by blast
qed

theorem heading_pattern_shape_witness:
  "10 \<notin> set (U ''2.3.1.  Title'') \<and> heading_match (U ''2.3.1.  Title'') \<noteq> None \<and>
   10 \<notin> set (strip (U '' 1. ABCD''))"
proof -
  let ?s = "U ''2.3.1.  Title''"
  have nl: "10 \<notin> set ?s" by (simp add: U_def)
  have shape: "\<exists>ns ws rest. 1 \<le> length ns \<and> length ns \<le> 3 \<and> list_all digits ns \<and>
           ws \<noteq> [] \<and> list_all isspace ws \<and> rest \<noteq> [] \<and>
           ?s = py_join [46] ns @ [46] @ ws @ rest"
    by (intro exI [of _ "[U ''2'', U ''3'', U ''1'']"] exI [of _ "U ''  ''"] exI [of _ "U ''Title''"])
      (simp add: digits_def str_eval)
  have l: "U '' 1. ABCD'' \<in> set (py_split 10 (U '' 1. ABCD''))"
    by (simp add: py_split_single U_def)
  from heading_pattern_shape [of ?s "U '' 1. ABCD''"] nl shape l
  show ?thesis by blast
qed

section \<open>Coverage of the input\<close>

text \<open>
  Claim C1 asks that the fragments cover every line of the input. The document of the
  two lines \<open>```\<close> and \<open>abc\<close> has no fragment at all: the loop ends inside the fence
  and the buffer is never written out, so the output is empty and neither line is
  covered. The two other rules that collect lines do write their buffer out when the
  input ends: a brace block that is still open and an indented block at the end of the
  input are both rendered.
\<close>

theorem open_fence_at_end_loses_lines:
  "py_split 10 (U ''```'' @ [10] @ U ''abc'') = [U ''```'', U ''abc''] \<and>
   body_fragments (U ''```'' @ [10] @ U ''abc'') = [] \<and>
   format_content_to_html (U ''```'' @ [10] @ U ''abc'') [] = [] \<and>
   format_content_to_html (U ''class A {'' @ [10] @ U ''abc'') [] =
     U ''<pre><code>class A {'' @ [10] @ U ''abc</code></pre>'' \<and>
   format_content_to_html (U ''    x'' @ [10] @ U ''    y'') [] =
     U ''<pre><code>    x'' @ [10] @ U ''    y</code></pre>''"
  by (simp add: str_eval re_eval fmt_eval Let_def)

end
